theory Spec2Isabelle
  imports Main "HOL-Library.Sublist"
begin

section \<open>Python values used by the Notion markdown utilities\<close>

text \<open>
  The development embeds the link handling of
  \<^verbatim>\<open>Agent_Prototype/Tools/notion_markdown_utils/link_handler.py\<close> and the block builder of
  \<^verbatim>\<open>Apps/Tools/notion_markdown_utils/markdown_converter.py\<close>.
  A Python \<^verbatim>\<open>str\<close> is a \<^typ>\<open>string\<close>; a character stands for the code point of the
  same number, so the model covers texts whose code points are below 256.
  An exception raised by the source is the \<^verbatim>\<open>Inl\<close> branch of a sum type.
\<close>

datatype py_error = TypeError

subsection \<open>String primitives\<close>

text \<open>
  \<^verbatim>\<open>str.isspace\<close> on one character (the same test decides \<^verbatim>\<open>\s\<close> in a regular expression
  on \<^verbatim>\<open>str\<close> and what \<^verbatim>\<open>str.strip\<close> removes): the code points 9 to 13, 28 to 32,
  133 and 160 are the white space below 256.
\<close>

definition isspace :: "char \<Rightarrow> bool" where
  "isspace c = (of_char c \<in> {9, 10, 11, 12, 13, 28, 29, 30, 31, 32, 133, 160 :: nat})"

definition strip :: "string \<Rightarrow> string" where
  "strip s = rev (dropWhile isspace (rev (dropWhile isspace s)))"

definition startswith :: "string \<Rightarrow> string \<Rightarrow> bool" where
  "startswith s p = prefix p s"

definition endswith :: "string \<Rightarrow> string \<Rightarrow> bool" where
  "endswith s p = suffix p s"

text \<open>The slice \<^verbatim>\<open>s[a:b]\<close> for non-negative \<^verbatim>\<open>a\<close> and \<^verbatim>\<open>b\<close>.\<close>
definition slice :: "string \<Rightarrow> nat \<Rightarrow> nat \<Rightarrow> string" where
  "slice s a b = drop a (take b s)"

text \<open>\<^verbatim>\<open>s.split('\n')\<close> and \<^verbatim>\<open>'\n'.join(lines)\<close>.\<close>

fun split_nl :: "string \<Rightarrow> string list" where
  "split_nl [] = [[]]"
| "split_nl (c # cs) =
     (if c = CHR 0x0A then [] # split_nl cs
      else (case split_nl cs of [] \<Rightarrow> [[c]] | l # ls \<Rightarrow> (c # l) # ls))"

fun join_nl :: "string list \<Rightarrow> string" where
  "join_nl [] = []"
| "join_nl [l] = l"
| "join_nl (l # ls) = l @ CHR 0x0A # join_nl ls"

text \<open>The decimal rendering of a length in an f-string.\<close>

definition digit_char :: "nat \<Rightarrow> char" where
  "digit_char d = ''0123456789'' ! d"

fun str_nat :: "nat \<Rightarrow> string" where
  "str_nat n = (if n < 10 then [digit_char n] else str_nat (n div 10) @ [digit_char (n mod 10)])"

declare str_nat.simps [simp del]

section \<open>Preprocessing: links become placeholders\<close>

text \<open>One entry of \<^verbatim>\<open>extracted_links\<close>: the dictionary with the keys
  \<^verbatim>\<open>placeholder\<close>, \<^verbatim>\<open>text\<close> and \<^verbatim>\<open>url\<close>.\<close>

record link =
  placeholder :: string
  link_text :: string
  link_url :: string

subsection \<open>The pattern of a markdown link\<close>

text \<open>
  The pattern \<^verbatim>\<open>\[([^\]]+)\]\(([^)]+)\)\<close> has no choice to make: each group is the longest
  run of characters other than its closing delimiter, and the delimiter has to follow.
  \<^verbatim>\<open>match_md_link s\<close> matches at the start of \<^verbatim>\<open>s\<close> and returns both groups and the
  text after the match.
\<close>

text \<open>One or more characters other than \<^verbatim>\<open>c\<close>, then \<^verbatim>\<open>c\<close>.\<close>
definition until_char :: "char \<Rightarrow> string \<Rightarrow> (string \<times> string) option" where
  "until_char c s =
     (let t = takeWhile (\<lambda>x. x \<noteq> c) s
      in if t = [] then None
         else (case dropWhile (\<lambda>x. x \<noteq> c) s of [] \<Rightarrow> None | d # rest \<Rightarrow> Some (t, rest)))"

definition match_md_link :: "string \<Rightarrow> (string \<times> string \<times> string) option" where
  "match_md_link s =
     (case s of
        [] \<Rightarrow> None
      | c # r \<Rightarrow>
          if c \<noteq> CHR ''['' then None
          else (case until_char CHR '']'' r of
                  None \<Rightarrow> None
                | Some (group1, r1) \<Rightarrow>
                    (case r1 of
                       [] \<Rightarrow> None
                     | b # r2 \<Rightarrow>
                         if b \<noteq> CHR ''('' then None
                         else (case until_char CHR '')'' r2 of
                                 None \<Rightarrow> None
                               | Some (group2, rest) \<Rightarrow> Some (group1, group2, rest)))))"

lemma until_char_Some:
  "until_char c s = Some (t, rest) \<longleftrightarrow> s = t @ c # rest \<and> t \<noteq> [] \<and> c \<notin> set t"
proof
  assume a: "until_char c s = Some (t, rest)"
  then have t: "t = takeWhile (\<lambda>x. x \<noteq> c) s" and tn: "t \<noteq> []"
    by (auto simp: until_char_def Let_def split: if_splits list.splits)
  from a obtain d where d: "dropWhile (\<lambda>x. x \<noteq> c) s = d # rest"
    by (auto simp: until_char_def Let_def split: if_splits list.splits)
  have "d = c" using hd_dropWhile[of "\<lambda>x. x \<noteq> c" s] d by auto
  with d t have "s = t @ c # rest"
    using takeWhile_dropWhile_id[of "\<lambda>x. x \<noteq> c" s] by simp
  moreover have "c \<notin> set t" unfolding t using set_takeWhileD by fastforce
  ultimately show "s = t @ c # rest \<and> t \<noteq> [] \<and> c \<notin> set t" using tn by simp
next
  assume "s = t @ c # rest \<and> t \<noteq> [] \<and> c \<notin> set t"
  then have s: "s = t @ c # rest" and tn: "t \<noteq> []" and c: "\<forall>x\<in>set t. x \<noteq> c" by auto
  have "takeWhile (\<lambda>x. x \<noteq> c) s = t" unfolding s using c by (simp add: takeWhile_tail)
  moreover have "dropWhile (\<lambda>x. x \<noteq> c) s = c # rest" unfolding s using c by (simp add: dropWhile_append3)
  ultimately show "until_char c s = Some (t, rest)" using tn by (simp add: until_char_def)
qed

lemma match_md_link_SomeD:
  assumes "match_md_link s = Some (t, u, rest)"
  shows "\<exists>r1 r2. s = CHR ''['' # r1 \<and> until_char CHR '']'' r1 = Some (t, CHR ''('' # r2) \<and>
           until_char CHR '')'' r2 = Some (u, rest)"
proof (cases s)
  case Nil
  with assms show ?thesis by (simp add: match_md_link_def)
next
  case (Cons c r)
  with assms have c: "c = CHR ''[''"
    by (simp add: match_md_link_def split: if_splits)
  from assms Cons c obtain g1 r1 where u1: "until_char CHR '']'' r = Some (g1, r1)"
    by (cases "until_char CHR '']'' r") (auto simp: match_md_link_def)
  from assms Cons c u1 obtain b r2 where r1: "r1 = b # r2"
    by (cases r1) (auto simp: match_md_link_def)
  from assms Cons c u1 r1 have b: "b = CHR ''(''"
    by (simp add: match_md_link_def split: if_splits)
  from assms Cons c u1 r1 b obtain g2 rest' where u2: "until_char CHR '')'' r2 = Some (g2, rest')"
    by (cases "until_char CHR '')'' r2") (auto simp: match_md_link_def)
  from assms Cons c u1 r1 b u2 have "g1 = t" "g2 = u" "rest' = rest"
    by (simp_all add: match_md_link_def)
  with Cons c u1 r1 b u2 show ?thesis by simp
qed

lemma match_md_link_SomeI:
  assumes "until_char CHR '']'' r1 = Some (t, CHR ''('' # r2)"
    and "until_char CHR '')'' r2 = Some (u, rest)"
  shows "match_md_link (CHR ''['' # r1) = Some (t, u, rest)"
  using assms by (simp add: match_md_link_def)

lemma match_md_link_Some:
  "match_md_link s = Some (t, u, rest) \<longleftrightarrow>
     s = ''['' @ t @ '']('' @ u @ '')'' @ rest \<and> t \<noteq> [] \<and> u \<noteq> [] \<and>
     CHR '']'' \<notin> set t \<and> CHR '')'' \<notin> set u"
proof
  assume "match_md_link s = Some (t, u, rest)"
  from match_md_link_SomeD[OF this] obtain r1 r2 where
    s: "s = CHR ''['' # r1" and u1: "until_char CHR '']'' r1 = Some (t, CHR ''('' # r2)"
    and u2: "until_char CHR '')'' r2 = Some (u, rest)" by blast
  from u1 have "r1 = t @ CHR '']'' # CHR ''('' # r2" "t \<noteq> []" "CHR '']'' \<notin> set t"
    by (simp_all add: until_char_Some)
  moreover from u2 have "r2 = u @ CHR '')'' # rest" "u \<noteq> []" "CHR '')'' \<notin> set u"
    by (simp_all add: until_char_Some)
  ultimately show "s = ''['' @ t @ '']('' @ u @ '')'' @ rest \<and> t \<noteq> [] \<and> u \<noteq> [] \<and>
     CHR '']'' \<notin> set t \<and> CHR '')'' \<notin> set u"
    using s by simp
next
  assume a: "s = ''['' @ t @ '']('' @ u @ '')'' @ rest \<and> t \<noteq> [] \<and> u \<noteq> [] \<and>
     CHR '']'' \<notin> set t \<and> CHR '')'' \<notin> set u"
  have u1: "until_char CHR '']'' (t @ CHR '']'' # CHR ''('' # (u @ CHR '')'' # rest)) = Some (t, CHR ''('' # (u @ CHR '')'' # rest))"
    using a by (simp add: until_char_Some)
  have u2: "until_char CHR '')'' (u @ CHR '')'' # rest) = Some (u, rest)"
    using a by (simp add: until_char_Some)
  have "s = CHR ''['' # (t @ CHR '']'' # CHR ''('' # (u @ CHR '')'' # rest))" using a by simp
  then show "match_md_link s = Some (t, u, rest)"
    using match_md_link_SomeI[OF u1 u2] by simp
qed

lemma match_md_link_shorter:
  "match_md_link s = Some (t, u, rest) \<Longrightarrow> length rest < length s"
  by (simp add: match_md_link_Some)

text \<open>
  The callback \<^verbatim>\<open>replace_markdown_link\<close>; the list it appends to is passed in and returned.
\<close>

definition replace_markdown_link :: "string \<Rightarrow> string \<Rightarrow> link list \<Rightarrow> string \<times> link list" where
  "replace_markdown_link group1 group2 extracted_links =
     (let ph = ''LINKPLACEHOLDER_'' @ str_nat (length extracted_links)
      in (''['' @ ph @ '']'',
          extracted_links @ [\<lparr>placeholder = ph, link_text = group1, link_url = group2\<rparr>]))"

text \<open>
  \<^verbatim>\<open>re.sub\<close> with that callback scans the text from the left. One step at a position
  either replaces a match and goes on after it, or copies one character.
\<close>

definition md_link_step :: "char \<Rightarrow> string \<Rightarrow> link list \<Rightarrow> string \<times> link list \<times> string" where
  "md_link_step c cs extracted_links =
     (case match_md_link (c # cs) of
        Some (group1, group2, rest) \<Rightarrow>
          (case replace_markdown_link group1 group2 extracted_links of
             (repl, links1) \<Rightarrow> (repl, links1, rest))
      | None \<Rightarrow> ([c], extracted_links, cs))"

lemma md_link_step_shorter:
  "md_link_step c cs links = (emitted, links1, rest) \<Longrightarrow> length rest < length (c # cs)"
  by (cases "match_md_link (c # cs)")
     (auto simp: md_link_step_def replace_markdown_link_def dest: match_md_link_shorter)

function sub_md_links :: "string \<Rightarrow> link list \<Rightarrow> string \<times> link list" where
  "sub_md_links [] extracted_links = ([], extracted_links)"
| "sub_md_links (c # cs) extracted_links =
     (case md_link_step c cs extracted_links of
        (emitted, links1, rest) \<Rightarrow>
          (case sub_md_links rest links1 of
             (out, links') \<Rightarrow> (emitted @ out, links')))"
  by pat_completeness auto
termination sub_md_links
proof (relation "measure (\<lambda>(s, l). length s)", goal_cases)
  case 1
  show ?case by simp
next
  case prems: 2
  from prems(1)[symmetric] prems(2) show ?case
    by (auto dest: md_link_step_shorter)
qed

subsection \<open>The pattern of a bare URL\<close>

text \<open>
  The pattern \<^verbatim>\<open>https?://[^\s)"'\]\}]+\<close>: the scheme, then the longest non-empty run of
  characters that are neither white space nor one of the five closing characters.
\<close>

definition url_char :: "char \<Rightarrow> bool" where
  "url_char c = (\<not> isspace c \<and> c \<notin> {CHR '')'', CHR 0x22, CHR 0x27, CHR '']'', CHR ''}''})"

definition match_url :: "string \<Rightarrow> (string \<times> string) option" where
  "match_url s =
     (if prefix ''https://'' s then
        (let body = takeWhile url_char (drop 8 s); rest = dropWhile url_char (drop 8 s)
         in if body = [] then None else Some (''https://'' @ body, rest))
      else if prefix ''http://'' s then
        (let body = takeWhile url_char (drop 7 s); rest = dropWhile url_char (drop 7 s)
         in if body = [] then None else Some (''http://'' @ body, rest))
      else None)"

lemma match_url_Some:
  "match_url s = Some (u, rest) \<Longrightarrow> s = u @ rest \<and> u \<noteq> []"
  by (auto simp: match_url_def Let_def prefix_def split: if_splits)

lemma match_url_shorter: "match_url s = Some (u, rest) \<Longrightarrow> length rest < length s"
  by (drule match_url_Some) (cases u; simp)

text \<open>
  The callback \<^verbatim>\<open>replace_bare_url\<close>. \<^verbatim>\<open>start\<close> is \<^verbatim>\<open>match.start()\<close>, an offset into the
  line being scanned; the two characters before it are read from \<^verbatim>\<open>markdown_content\<close>,
  the text that \<^verbatim>\<open>preprocess_markdown_links\<close> received.
\<close>

definition replace_bare_url :: "string \<Rightarrow> nat \<Rightarrow> string \<Rightarrow> link list \<Rightarrow> string \<times> link list" where
  "replace_bare_url markdown_content start url extracted_links =
     (let prev_chars = slice markdown_content (start - 2) start
      in if endswith prev_chars '']('' then (url, extracted_links)
         else (let ph = ''URLLINKPLACEHOLDER_'' @ str_nat (length extracted_links)
               in (ph, extracted_links @ [\<lparr>placeholder = ph, link_text = url, link_url = url\<rparr>])))"

definition bare_url_step ::
  "string \<Rightarrow> nat \<Rightarrow> char \<Rightarrow> string \<Rightarrow> link list \<Rightarrow> string \<times> link list \<times> nat \<times> string" where
  "bare_url_step markdown_content start c cs extracted_links =
     (case match_url (c # cs) of
        Some (url, rest) \<Rightarrow>
          (case replace_bare_url markdown_content start url extracted_links of
             (repl, links1) \<Rightarrow> (repl, links1, start + length url, rest))
      | None \<Rightarrow> ([c], extracted_links, Suc start, cs))"

lemma bare_url_step_shorter:
  "bare_url_step mc start c cs links = (emitted, links1, start', rest) \<Longrightarrow>
     length rest < length (c # cs)"
  by (cases "match_url (c # cs)"; cases "replace_bare_url mc start (fst (the (match_url (c # cs)))) links")
     (auto simp: bare_url_step_def dest: match_url_shorter)

function sub_bare_urls :: "string \<Rightarrow> nat \<Rightarrow> string \<Rightarrow> link list \<Rightarrow> string \<times> link list" where
  "sub_bare_urls markdown_content start [] extracted_links = ([], extracted_links)"
| "sub_bare_urls markdown_content start (c # cs) extracted_links =
     (case bare_url_step markdown_content start c cs extracted_links of
        (emitted, links1, start', rest) \<Rightarrow>
          (case sub_bare_urls markdown_content start' rest links1 of
             (out, links') \<Rightarrow> (emitted @ out, links')))"
  by pat_completeness auto
termination sub_bare_urls
proof (relation "measure (\<lambda>(m, i, s, l). length s)", goal_cases)
  case 1
  show ?case by simp
next
  case prems: 2
  from prems(1)[symmetric] prems(2) prems(3) show ?case
    by (auto dest: bare_url_step_shorter)
qed

text \<open>
  The loop over the lines, with the flag \<^verbatim>\<open>in_code_block\<close>: a line whose stripped text
  starts with three backquotes flips the flag and is kept; any other line is scanned for
  bare URLs when the flag is off and kept when it is on.
\<close>

definition line_step :: "string \<Rightarrow> bool \<Rightarrow> string \<Rightarrow> link list \<Rightarrow> string \<times> bool \<times> link list" where
  "line_step markdown_content in_code_block line extracted_links =
     (if startswith (strip line) ''```'' then (line, \<not> in_code_block, extracted_links)
      else if \<not> in_code_block then
        (case sub_bare_urls markdown_content 0 line extracted_links of
           (line', links1) \<Rightarrow> (line', in_code_block, links1))
      else (line, in_code_block, extracted_links))"

fun url_lines :: "string \<Rightarrow> bool \<Rightarrow> string list \<Rightarrow> link list \<Rightarrow> string list \<times> link list" where
  "url_lines markdown_content in_code_block [] extracted_links = ([], extracted_links)"
| "url_lines markdown_content in_code_block (line # lines) extracted_links =
     (case line_step markdown_content in_code_block line extracted_links of
        (line', in_code_block', links1) \<Rightarrow>
          (case url_lines markdown_content in_code_block' lines links1 of
             (out, links') \<Rightarrow> (line' # out, links')))"

definition preprocess_markdown_links :: "string \<Rightarrow> string \<times> link list" where
  "preprocess_markdown_links markdown_content =
     (case sub_md_links markdown_content [] of
        (processed_content, links0) \<Rightarrow>
          (case url_lines markdown_content False (split_nl processed_content) links0 of
             (lines, extracted_links) \<Rightarrow> (join_nl lines, extracted_links)))"


section \<open>Notion blocks as JSON values\<close>

text \<open>
  The blocks are the nested dictionaries and lists that \<^verbatim>\<open>json.loads\<close> or the block builder
  produce. A dictionary is an association list in insertion order; a Python dictionary has
  no key twice. The values are trees: no object is shared between two places, so updating
  in place and rebuilding the value give the same result.
\<close>

datatype json =
    JNull
  | JBool bool
  | JNum int
  | JStr string
  | JList "json list"
  | JDict "(string \<times> json) list"

text \<open>\<^verbatim>\<open>d.get(k)\<close> and \<^verbatim>\<open>d[k] = v\<close>: an existing key keeps its position, a new key goes last.\<close>

fun dict_get :: "('k \<times> 'v) list \<Rightarrow> 'k \<Rightarrow> 'v option" where
  "dict_get [] k = None"
| "dict_get ((k', v) # kvs) k = (if k' = k then Some v else dict_get kvs k)"

fun dict_set :: "('k \<times> 'v) list \<Rightarrow> 'k \<Rightarrow> 'v \<Rightarrow> ('k \<times> 'v) list" where
  "dict_set [] k v = [(k, v)]"
| "dict_set ((k', v') # kvs) k v = (if k' = k then (k, v) # kvs else (k', v') # dict_set kvs k v)"

text \<open>A loop over a list whose body may raise: the first exception ends it.\<close>

fun map_err :: "('a \<Rightarrow> py_error + 'b) \<Rightarrow> 'a list \<Rightarrow> py_error + 'b list" where
  "map_err f [] = Inr []"
| "map_err f (x # xs) =
     (case f x of Inl e \<Rightarrow> Inl e
      | Inr y \<Rightarrow> (case map_err f xs of Inl e \<Rightarrow> Inl e | Inr ys \<Rightarrow> Inr (y # ys)))"

lemma map_err_cong [fundef_cong]:
  "xs = ys \<Longrightarrow> (\<And>x. x \<in> set ys \<Longrightarrow> f x = g x) \<Longrightarrow> map_err f xs = map_err g ys"
  by (induction ys arbitrary: xs) (auto split: sum.splits)

fun is_container :: "json \<Rightarrow> bool" where
  "is_container (JList _) = True"
| "is_container (JDict _) = True"
| "is_container _ = False"

text \<open>
  \<^verbatim>\<open>k in x\<close> for a string \<^verbatim>\<open>k\<close>: a key test on a dictionary, a membership test on a list,
  a substring test on a string, and a \<^verbatim>\<open>TypeError\<close> on any other value.
  \<^verbatim>\<open>x[k]\<close> for a string \<^verbatim>\<open>k\<close> succeeds on a dictionary that has the key.
\<close>

fun py_in :: "string \<Rightarrow> json \<Rightarrow> py_error + bool" where
  "py_in k (JDict kvs) = Inr (dict_get kvs k \<noteq> None)"
| "py_in k (JList xs) = Inr (JStr k \<in> set xs)"
| "py_in k (JStr s) = Inr (sublist k s)"
| "py_in k _ = Inl TypeError"

fun py_getitem :: "json \<Rightarrow> string \<Rightarrow> py_error + json" where
  "py_getitem (JDict kvs) k = (case dict_get kvs k of Some v \<Rightarrow> Inr v | None \<Rightarrow> Inl TypeError)"
| "py_getitem _ k = Inl TypeError"

text \<open>The test \<^verbatim>\<open>k in x and isinstance(x[k], list)\<close>, with the list when it holds.\<close>
definition get_list :: "json \<Rightarrow> string \<Rightarrow> py_error + json list option" where
  "get_list x k =
     (case py_in k x of
        Inl e \<Rightarrow> Inl e
      | Inr False \<Rightarrow> Inr None
      | Inr True \<Rightarrow>
          (case py_getitem x k of
             Inl e \<Rightarrow> Inl e
           | Inr (JList xs) \<Rightarrow> Inr (Some xs)
           | Inr _ \<Rightarrow> Inr None))"

fun set_key :: "json \<Rightarrow> string \<Rightarrow> json \<Rightarrow> json" where
  "set_key (JDict kvs) k v = JDict (dict_set kvs k v)"
| "set_key j k v = j"

section \<open>Postprocessing: placeholders become links\<close>

subsection \<open>The explicit walk over table cells\<close>

text \<open>
  The first part of \<^verbatim>\<open>process_block\<close> on a dictionary: when the block has type
  \<^verbatim>\<open>table\<close>, every list found as a cell of a row is replaced by the list of its processed
  items. The function applied to an item is a parameter here; \<^verbatim>\<open>process_block\<close> passes itself.
\<close>

definition cell_walk :: "(json \<Rightarrow> py_error + json) \<Rightarrow> json \<Rightarrow> py_error + json" where
  "cell_walk f cell =
     (case cell of
        JList items \<Rightarrow> (case map_err f items of Inl e \<Rightarrow> Inl e | Inr items' \<Rightarrow> Inr (JList items'))
      | _ \<Rightarrow> Inr cell)"

definition row_walk :: "(json \<Rightarrow> py_error + json) \<Rightarrow> json \<Rightarrow> py_error + json" where
  "row_walk f row =
     (case row of
        JDict rk \<Rightarrow>
          (case dict_get rk ''table_row'' of
             None \<Rightarrow> Inr row
           | Some tr \<Rightarrow>
               (case get_list tr ''cells'' of
                  Inl e \<Rightarrow> Inl e
                | Inr None \<Rightarrow> Inr row
                | Inr (Some cells) \<Rightarrow>
                    (case map_err (cell_walk f) cells of
                       Inl e \<Rightarrow> Inl e
                     | Inr cells' \<Rightarrow>
                         Inr (JDict (dict_set rk ''table_row'' (set_key tr ''cells'' (JList cells')))))))
      | _ \<Rightarrow> Inr row)"

definition table_walk ::
  "(json \<Rightarrow> py_error + json) \<Rightarrow> (string \<times> json) list \<Rightarrow> py_error + (string \<times> json) list" where
  "table_walk f block =
     (if dict_get block ''type'' = Some (JStr ''table'') \<and> dict_get block ''table'' \<noteq> None then
        (case dict_get block ''table'' of
           None \<Rightarrow> Inr block
         | Some tv \<Rightarrow>
             (case get_list tv ''children'' of
                Inl e \<Rightarrow> Inl e
              | Inr None \<Rightarrow> Inr block
              | Inr (Some rows) \<Rightarrow>
                  (case map_err (row_walk f) rows of
                     Inl e \<Rightarrow> Inl e
                   | Inr rows' \<Rightarrow>
                       Inr (dict_set block ''table'' (set_key tv ''children'' (JList rows'))))))
      else Inr block)"

text \<open>The items that the walk hands to the function, for the recursion of \<^verbatim>\<open>process_block\<close>.\<close>
definition cell_items :: "json \<Rightarrow> json list" where
  "cell_items cell = (case cell of JList items \<Rightarrow> items | _ \<Rightarrow> [])"

definition row_items :: "json \<Rightarrow> json list" where
  "row_items row =
     (case row of
        JDict rk \<Rightarrow>
          (case dict_get rk ''table_row'' of
             None \<Rightarrow> []
           | Some tr \<Rightarrow>
               (case get_list tr ''cells'' of
                  Inr (Some cells) \<Rightarrow> concat (map cell_items cells)
                | _ \<Rightarrow> []))
      | _ \<Rightarrow> [])"

definition table_items :: "(string \<times> json) list \<Rightarrow> json list" where
  "table_items block =
     (if dict_get block ''type'' = Some (JStr ''table'') \<and> dict_get block ''table'' \<noteq> None then
        (case dict_get block ''table'' of
           None \<Rightarrow> []
         | Some tv \<Rightarrow>
             (case get_list tv ''children'' of
                Inr (Some rows) \<Rightarrow> concat (map row_items rows)
              | _ \<Rightarrow> []))
      else [])"

lemma cell_walk_cong:
  "(\<And>x. x \<in> set (cell_items c) \<Longrightarrow> f x = g x) \<Longrightarrow> cell_walk f c = cell_walk g c"
  unfolding cell_walk_def cell_items_def
  by (cases c) (auto cong: map_err_cong split: sum.splits)

lemma row_walk_cong:
  assumes "\<And>x. x \<in> set (row_items r) \<Longrightarrow> f x = g x"
  shows "row_walk f r = row_walk g r"
proof (cases r)
  case (JDict rk)
  show ?thesis
  proof (cases "dict_get rk ''table_row''")
    case None
    with JDict show ?thesis by (simp add: row_walk_def)
  next
    case (Some tr)
    show ?thesis
    proof (cases "get_list tr ''cells''")
      case (Inl e)
      with JDict Some show ?thesis by (simp add: row_walk_def)
    next
      case (Inr r')
      show ?thesis
      proof (cases r')
        case None
        with JDict Some Inr show ?thesis by (simp add: row_walk_def)
      next
        case (Some cells)
        have "map_err (cell_walk f) cells = map_err (cell_walk g) cells"
        proof (rule map_err_cong[OF refl])
          fix c assume "c \<in> set cells"
          then have "\<And>x. x \<in> set (cell_items c) \<Longrightarrow> f x = g x"
            using assms JDict \<open>dict_get rk ''table_row'' = Some tr\<close> Inr Some
            by (auto simp: row_items_def)
          then show "cell_walk f c = cell_walk g c" by (rule cell_walk_cong)
        qed
        with JDict \<open>dict_get rk ''table_row'' = Some tr\<close> Inr Some show ?thesis
          by (simp add: row_walk_def)
      qed
    qed
  qed
qed (simp_all add: row_walk_def)

lemma table_walk_cong [fundef_cong]:
  assumes "kvs = kvs'" and "\<And>x. x \<in> set (table_items kvs') \<Longrightarrow> f x = g x"
  shows "table_walk f kvs = table_walk g kvs'"
proof -
  have "map_err (row_walk f) rows = map_err (row_walk g) rows"
    if "dict_get kvs' ''table'' = Some tv" "dict_get kvs' ''type'' = Some (JStr ''table'')"
       "get_list tv ''children'' = Inr (Some rows)" for tv rows
  proof (rule map_err_cong[OF refl])
    fix r assume "r \<in> set rows"
    then have "\<And>x. x \<in> set (row_items r) \<Longrightarrow> f x = g x"
      using assms(2) that by (auto simp: table_items_def)
    then show "row_walk f r = row_walk g r" by (rule row_walk_cong)
  qed
  then show ?thesis
    unfolding table_walk_def assms(1)
    by (auto split: option.splits sum.splits)
qed


subsection \<open>Resolving the content of a run\<close>

text \<open>
  \<^verbatim>\<open>link_lookup\<close> is the dictionary comprehension over \<^verbatim>\<open>extracted_links\<close>. The two loops over
  its items test the bare placeholder first and the placeholder in brackets second; the first
  hit sets the content and the link of the block and ends \<^verbatim>\<open>process_block\<close>.
\<close>

type_synonym lookup = "(string \<times> link) list"

definition link_lookup :: "link list \<Rightarrow> lookup" where
  "link_lookup extracted_links = foldl (\<lambda>d l. dict_set d (placeholder l) l) [] extracted_links"

fun find_token :: "(string \<Rightarrow> string) \<Rightarrow> lookup \<Rightarrow> json \<Rightarrow> py_error + link option" where
  "find_token wrap [] content = Inr None"
| "find_token wrap ((p, link_data) # rest) content =
     (case py_in (wrap p) content of
        Inl e \<Rightarrow> Inl e
      | Inr True \<Rightarrow> Inr (Some link_data)
      | Inr False \<Rightarrow> find_token wrap rest content)"

definition bracketed :: "string \<Rightarrow> string" where
  "bracketed p = ''['' @ p @ '']''"

definition set_link :: "(string \<times> json) list \<Rightarrow> (string \<times> json) list \<Rightarrow> link \<Rightarrow> (string \<times> json) list" where
  "set_link kvs tk link_data =
     dict_set kvs ''text''
       (JDict (dict_set (dict_set tk ''content'' (JStr (link_text link_data)))
                 ''link'' (JDict [(''url'', JStr (link_url link_data))])))"

definition resolve_text :: "lookup \<Rightarrow> (string \<times> json) list \<Rightarrow> py_error + (string \<times> json) list option" where
  "resolve_text lk kvs =
     (case dict_get kvs ''text'' of
        Some (JDict tk) \<Rightarrow>
          (case dict_get tk ''content'' of
             None \<Rightarrow> Inr None
           | Some content \<Rightarrow>
               (case find_token (\<lambda>p. p) lk content of
                  Inl e \<Rightarrow> Inl e
                | Inr (Some link_data) \<Rightarrow> Inr (Some (set_link kvs tk link_data))
                | Inr None \<Rightarrow>
                    (case find_token bracketed lk content of
                       Inl e \<Rightarrow> Inl e
                     | Inr (Some link_data) \<Rightarrow> Inr (Some (set_link kvs tk link_data))
                     | Inr None \<Rightarrow> Inr None)))
      | _ \<Rightarrow> Inr None)"

text \<open>The last loop of \<^verbatim>\<open>process_block\<close>: every dictionary or list among the values is processed.\<close>

definition map_values :: "(json \<Rightarrow> py_error + json) \<Rightarrow> (string \<times> json) list \<Rightarrow> py_error + (string \<times> json) list" where
  "map_values f kvs =
     map_err (\<lambda>(key, v). if is_container v then (case f v of Inl e \<Rightarrow> Inl e | Inr v' \<Rightarrow> Inr (key, v'))
                           else Inr (key, v)) kvs"

lemma map_values_cong [fundef_cong]:
  "kvs = kvs' \<Longrightarrow> (\<And>k v. (k, v) \<in> set kvs' \<Longrightarrow> is_container v \<Longrightarrow> f v = g v)
     \<Longrightarrow> map_values f kvs = map_values g kvs'"
  unfolding map_values_def by (rule map_err_cong) auto

subsection \<open>The recursion and its termination\<close>

text \<open>
  \<^verbatim>\<open>process_block\<close> calls itself on the values of the block after the table walk, which holds
  results of earlier calls. Resolving a run can add a link object, so the measure counts the
  containers of a value and leaves out link objects \<^verbatim>\<open>{"url": u}\<close> below a container.
\<close>

fun is_link_obj :: "json \<Rightarrow> bool" where
  "is_link_obj (JDict [(k, JStr u)]) = (k = ''url'')"
| "is_link_obj _ = False"

fun weight :: "json \<Rightarrow> nat" where
  "weight (JDict kvs) =
     (if is_link_obj (JDict kvs) then 1
      else 2 + sum_list (map (\<lambda>kv. if is_link_obj (snd kv) then 0 else weight (snd kv)) kvs))"
| "weight (JList xs) = 2 + sum_list (map (\<lambda>x. if is_link_obj x then 0 else weight x) xs)"
| "weight _ = 0"

function process_block :: "lookup \<Rightarrow> json \<Rightarrow> py_error + json" where
  "process_block lk (JDict block) =
     (case table_walk (process_block lk) block of
        Inl e \<Rightarrow> Inl e
      | Inr block1 \<Rightarrow>
          (case resolve_text lk block1 of
             Inl e \<Rightarrow> Inl e
           | Inr (Some block2) \<Rightarrow> Inr (JDict block2)
           | Inr None \<Rightarrow>
               (case map_values (process_block lk) block1 of
                  Inl e \<Rightarrow> Inl e
                | Inr block3 \<Rightarrow> Inr (JDict block3))))"
| "process_block lk (JList xs) =
     (case map_err (process_block lk) xs of Inl e \<Rightarrow> Inl e | Inr ys \<Rightarrow> Inr (JList ys))"
| "process_block lk JNull = Inr JNull"
| "process_block lk (JBool b) = Inr (JBool b)"
| "process_block lk (JNum n) = Inr (JNum n)"
| "process_block lk (JStr s) = Inr (JStr s)"
  by pat_completeness auto


definition wt :: "json \<Rightarrow> nat" where
  "wt v = (if is_link_obj v then 0 else weight v)"

definition wsum :: "(string \<times> json) list \<Rightarrow> nat" where
  "wsum kvs = sum_list (map (\<lambda>kv. wt (snd kv)) kvs)"

lemma weight_JDict: "weight (JDict kvs) = (if is_link_obj (JDict kvs) then 1 else 2 + wsum kvs)"
  by (simp add: wsum_def wt_def[abs_def])

lemma weight_JList: "weight (JList xs) = 2 + sum_list (map wt xs)"
  by (simp add: wt_def[abs_def])

lemma weight_atom [simp]:
  "weight JNull = 0" "weight (JBool b) = 0" "weight (JNum n) = 0" "weight (JStr s) = 0"
  by simp_all

declare weight.simps [simp del]

lemma wt_le_weight: "wt v \<le> weight v"
  by (simp add: wt_def)

lemma weight_le_Suc_wt: "weight v \<le> Suc (wt v)"
  by (cases "is_link_obj v") (auto simp: wt_def weight_JDict elim!: is_link_obj.elims)

lemma is_link_objE:
  assumes "is_link_obj v" obtains u where "v = JDict [(''url'', JStr u)]"
  using assms by (auto elim!: is_link_obj.elims)

lemma weight_JDict_le: "weight (JDict kvs) \<le> 2 + wsum kvs"
  by (simp add: weight_JDict)

lemma weight_elem_less: "x \<in> set xs \<Longrightarrow> weight x < weight (JList xs)"
proof -
  assume "x \<in> set xs"
  then have "wt x \<le> sum_list (map wt xs)"
    by (simp add: member_le_sum_list)
  with weight_le_Suc_wt[of x] show ?thesis
    by (simp add: weight_JList)
qed

lemma wt_le_wsum: "(k, v) \<in> set kvs \<Longrightarrow> wt v \<le> wsum kvs"
  by (induction kvs) (auto simp: wsum_def)

lemma weight_value_less: "(k, v) \<in> set kvs \<Longrightarrow> weight v < weight (JDict kvs)"
proof (cases "is_link_obj (JDict kvs)")
  case True
  assume "(k, v) \<in> set kvs"
  with True show ?thesis by (auto simp: weight_JDict elim!: is_link_objE)
next
  case False
  assume "(k, v) \<in> set kvs"
  then have "wt v \<le> wsum kvs" by (rule wt_le_wsum)
  with weight_le_Suc_wt[of v] False show ?thesis
    by (simp add: weight_JDict)
qed

lemma dict_get_in_set: "dict_get kvs k = Some v \<Longrightarrow> (k, v) \<in> set kvs"
  by (induction kvs) (auto split: if_splits)

lemma weight_dict_get_less: "dict_get kvs k = Some v \<Longrightarrow> weight v < weight (JDict kvs)"
  by (rule weight_value_less[OF dict_get_in_set])

lemma get_list_SomeD:
  "get_list x k = Inr (Some xs) \<Longrightarrow> \<exists>kvs. x = JDict kvs \<and> dict_get kvs k = Some (JList xs)"
  by (cases x) (auto simp: get_list_def split: if_splits option.splits json.splits bool.splits sum.splits)

lemma weight_get_list_less:
  assumes "get_list x k = Inr (Some xs)" and "y \<in> set xs"
  shows "weight y < weight x"
proof -
  from assms(1) obtain kvs where x: "x = JDict kvs" and g: "dict_get kvs k = Some (JList xs)"
    using get_list_SomeD by blast
  have "weight y < weight (JList xs)" using assms(2) by (rule weight_elem_less)
  also have "\<dots> < weight x" unfolding x using g by (rule weight_dict_get_less)
  finally show ?thesis .
qed

lemma weight_cell_items_less: "x \<in> set (cell_items c) \<Longrightarrow> weight x < weight c"
  by (cases c) (auto simp: cell_items_def weight_elem_less)

lemma row_itemsD:
  assumes "x \<in> set (row_items r)"
  shows "\<exists>rk tr cells c. r = JDict rk \<and> dict_get rk ''table_row'' = Some tr \<and>
        get_list tr ''cells'' = Inr (Some cells) \<and> c \<in> set cells \<and> x \<in> set (cell_items c)"
proof (cases r)
  case (JDict rk)
  show ?thesis
  proof (cases "dict_get rk ''table_row''")
    case None
    with assms JDict show ?thesis by (simp add: row_items_def)
  next
    case (Some tr)
    show ?thesis
    proof (cases "get_list tr ''cells''")
      case (Inl e)
      with assms JDict Some show ?thesis by (simp add: row_items_def)
    next
      case (Inr res)
      with assms JDict Some show ?thesis
        by (cases res) (auto simp: row_items_def)
    qed
  qed
qed (use assms in \<open>simp_all add: row_items_def\<close>)

lemma table_itemsD:
  assumes "x \<in> set (table_items block)"
  shows "\<exists>tv rows r. dict_get block ''table'' = Some tv \<and>
        dict_get block ''type'' = Some (JStr ''table'') \<and>
        get_list tv ''children'' = Inr (Some rows) \<and> r \<in> set rows \<and> x \<in> set (row_items r)"
proof -
  have ne: "table_items block \<noteq> []" using assms by auto
  then have ty: "dict_get block ''type'' = Some (JStr ''table'')"
    unfolding table_items_def by (simp split: if_splits)
  from ne obtain tv where tv: "dict_get block ''table'' = Some tv"
    unfolding table_items_def by (auto split: if_splits)
  from ne ty tv obtain rows where rows: "get_list tv ''children'' = Inr (Some rows)"
    unfolding table_items_def by (auto split: sum.splits option.splits)
  from ty tv rows have "table_items block = concat (map row_items rows)"
    unfolding table_items_def by simp
  with assms obtain r where "r \<in> set rows" "x \<in> set (row_items r)" by auto
  with ty tv rows show ?thesis by blast
qed

lemma weight_row_items_less:
  assumes "x \<in> set (row_items r)" shows "weight x < weight r"
proof -
  from row_itemsD[OF assms] obtain rk tr cells c where r: "r = JDict rk"
    and tr: "dict_get rk ''table_row'' = Some tr"
    and cells: "get_list tr ''cells'' = Inr (Some cells)"
    and c: "c \<in> set cells" and x: "x \<in> set (cell_items c)"
    by blast
  have "weight x < weight c" using x by (rule weight_cell_items_less)
  also have "\<dots> < weight tr" using cells c by (rule weight_get_list_less)
  also have "\<dots> < weight r" unfolding r using tr by (rule weight_dict_get_less)
  finally show ?thesis .
qed

lemma weight_table_items_less:
  assumes "x \<in> set (table_items block)" shows "weight x < weight (JDict block)"
proof -
  from table_itemsD[OF assms] obtain tv rows r where tv: "dict_get block ''table'' = Some tv"
    and rows: "get_list tv ''children'' = Inr (Some rows)"
    and r: "r \<in> set rows" and x: "x \<in> set (row_items r)"
    by blast
  have "weight x < weight r" using x by (rule weight_row_items_less)
  also have "\<dots> < weight tv" using rows r by (rule weight_get_list_less)
  also have "\<dots> < weight (JDict block)" using tv by (rule weight_dict_get_less)
  finally show ?thesis .
qed


definition shrinks :: "(json \<Rightarrow> py_error + json) \<Rightarrow> json \<Rightarrow> bool" where
  "shrinks f x = (\<forall>y. f x = Inr y \<longrightarrow> wt y \<le> wt x)"

lemma wsum_Cons [simp]: "wsum ((k, v) # kvs) = wt v + wsum kvs" and wsum_Nil [simp]: "wsum [] = 0"
  by (simp_all add: wsum_def)

lemma wsum_dict_set_zero: "wt v = 0 \<Longrightarrow> wsum (dict_set kvs k v) \<le> wsum kvs"
  by (induction kvs) auto

lemma wsum_dict_set_le:
  "dict_get kvs k = Some v0 \<Longrightarrow> wt v \<le> wt v0 \<Longrightarrow> wsum (dict_set kvs k v) \<le> wsum kvs"
  by (induction kvs) (auto split: if_splits)

lemma not_link_obj_container: "dict_get kvs k = Some v \<Longrightarrow> is_container v \<Longrightarrow> \<not> is_link_obj (JDict kvs)"
  by (auto elim!: is_link_objE split: if_splits)

lemma not_link_obj_key: "dict_get kvs k = Some v \<Longrightarrow> k \<noteq> ''url'' \<Longrightarrow> \<not> is_link_obj (JDict kvs)"
  by (auto elim!: is_link_objE split: if_splits)

lemma wt_JDict_le: "wt (JDict kvs) \<le> 2 + wsum kvs"
  using wt_le_weight[of "JDict kvs"] weight_JDict_le[of kvs] by simp

lemma wt_JDict_eq: "\<not> is_link_obj (JDict kvs) \<Longrightarrow> wt (JDict kvs) = 2 + wsum kvs"
  by (simp add: wt_def weight_JDict)

lemma wt_JList_eq: "wt (JList xs) = 2 + sum_list (map wt xs)"
  by (simp add: wt_def weight_JList)

lemma wt_JStr [simp]: "wt (JStr s) = 0"
  by (simp add: wt_def)

lemma wt_link_obj [simp]: "wt (JDict [(''url'', JStr u)]) = 0"
  by (simp add: wt_def)

lemma wt_dict_set_container:
  assumes "dict_get kvs k = Some v0" "is_container v0" "wt v \<le> wt v0"
  shows "wt (JDict (dict_set kvs k v)) \<le> wt (JDict kvs)"
proof -
  have "wt (JDict (dict_set kvs k v)) \<le> 2 + wsum (dict_set kvs k v)" by (rule wt_JDict_le)
  also have "\<dots> \<le> 2 + wsum kvs" using wsum_dict_set_le[OF assms(1,3)] by simp
  also have "\<dots> = wt (JDict kvs)"
    using not_link_obj_container[OF assms(1,2)] by (simp add: wt_JDict_eq)
  finally show ?thesis .
qed

lemma map_err_wt:
  "map_err f xs = Inr ys \<Longrightarrow> (\<forall>x\<in>set xs. shrinks f x) \<Longrightarrow> sum_list (map wt ys) \<le> sum_list (map wt xs)"
proof (induction xs arbitrary: ys)
  case Nil
  then show ?case by simp
next
  case (Cons x xs)
  from Cons.prems(1) obtain y ys' where y: "f x = Inr y" and ys': "map_err f xs = Inr ys'"
    and ys: "ys = y # ys'"
    by (auto split: sum.splits)
  have "wt y \<le> wt x" using Cons.prems(2) y by (simp add: shrinks_def)
  moreover have "sum_list (map wt ys') \<le> sum_list (map wt xs)"
    using Cons.IH[OF ys'] Cons.prems(2) by simp
  ultimately show ?case using ys by simp
qed

lemma cell_walk_shrinks:
  assumes "\<forall>x\<in>set (cell_items c). shrinks f x"
  shows "shrinks (cell_walk f) c"
proof (cases c)
  case (JList items)
  show ?thesis
    unfolding shrinks_def
  proof (intro allI impI)
    fix c' assume "cell_walk f c = Inr c'"
    with JList obtain items' where i: "map_err f items = Inr items'" and c': "c' = JList items'"
      by (auto simp: cell_walk_def split: sum.splits)
    have "sum_list (map wt items') \<le> sum_list (map wt items)"
      using map_err_wt[OF i] assms JList by (simp add: cell_items_def)
    then show "wt c' \<le> wt c" using c' JList by (simp add: wt_JList_eq)
  qed
qed (auto simp: shrinks_def cell_walk_def)

lemma row_walk_shrinks:
  assumes "\<forall>x\<in>set (row_items r). shrinks f x"
  shows "shrinks (row_walk f) r"
  unfolding shrinks_def
proof (intro allI impI)
  fix r' assume rw: "row_walk f r = Inr r'"
  show "wt r' \<le> wt r"
  proof (cases "r' = r")
    case True
    then show ?thesis by simp
  next
    case False
    with rw obtain rk tr cells cells' where r: "r = JDict rk"
      and tr: "dict_get rk ''table_row'' = Some tr"
      and cells: "get_list tr ''cells'' = Inr (Some cells)"
      and cells': "map_err (cell_walk f) cells = Inr cells'"
      and r': "r' = JDict (dict_set rk ''table_row'' (set_key tr ''cells'' (JList cells')))"
      by (cases r) (auto simp: row_walk_def split: option.splits sum.splits)
    from get_list_SomeD[OF cells] obtain tk where tk: "tr = JDict tk"
      and tkc: "dict_get tk ''cells'' = Some (JList cells)" by blast
    have "\<forall>c\<in>set cells. shrinks (cell_walk f) c"
    proof
      fix c assume "c \<in> set cells"
      then have "\<forall>x\<in>set (cell_items c). shrinks f x"
        using assms r tr cells by (auto simp: row_items_def)
      then show "shrinks (cell_walk f) c" by (rule cell_walk_shrinks)
    qed
    then have "sum_list (map wt cells') \<le> sum_list (map wt cells)"
      using map_err_wt[OF cells'] by simp
    then have "wt (JList cells') \<le> wt (JList cells)" by (simp add: wt_JList_eq)
    then have "wt (set_key tr ''cells'' (JList cells')) \<le> wt tr"
      unfolding tk using wt_dict_set_container[OF tkc] by simp
    then show ?thesis
      unfolding r r' using wt_dict_set_container[OF tr] tk by simp
  qed
qed

lemma table_walk_wsum:
  assumes "\<forall>x\<in>set (table_items block). shrinks f x"
    and tw: "table_walk f block = Inr block1"
  shows "wt (JDict block1) \<le> wt (JDict block)"
proof (cases "block1 = block")
  case True
  then show ?thesis by simp
next
  case False
  with tw obtain tv rows rows' where tv: "dict_get block ''table'' = Some tv"
    and ty: "dict_get block ''type'' = Some (JStr ''table'')"
    and rows: "get_list tv ''children'' = Inr (Some rows)"
    and rows': "map_err (row_walk f) rows = Inr rows'"
    and b1: "block1 = dict_set block ''table'' (set_key tv ''children'' (JList rows'))"
    by (auto simp: table_walk_def split: option.splits sum.splits if_splits)
  from get_list_SomeD[OF rows] obtain tk where tk: "tv = JDict tk"
    and tkc: "dict_get tk ''children'' = Some (JList rows)" by blast
  have "\<forall>r\<in>set rows. shrinks (row_walk f) r"
  proof
    fix r assume "r \<in> set rows"
    then have "\<forall>x\<in>set (row_items r). shrinks f x"
      using assms(1) tv ty rows by (auto simp: table_items_def)
    then show "shrinks (row_walk f) r" by (rule row_walk_shrinks)
  qed
  then have "sum_list (map wt rows') \<le> sum_list (map wt rows)"
    using map_err_wt[OF rows'] by simp
  then have "wt (JList rows') \<le> wt (JList rows)" by (simp add: wt_JList_eq)
  then have "wt (set_key tv ''children'' (JList rows')) \<le> wt tv"
    unfolding tk using wt_dict_set_container[OF tkc] by simp
  then show ?thesis
    unfolding b1 using wt_dict_set_container[OF tv] tk by simp
qed


lemma set_link_wt:
  assumes "dict_get kvs ''text'' = Some (JDict tk)" and "dict_get tk ''content'' = Some c"
  shows "wt (JDict (set_link kvs tk l)) \<le> wt (JDict kvs)"
proof -
  let ?t = "dict_set (dict_set tk ''content'' (JStr (link_text l))) ''link'' (JDict [(''url'', JStr (link_url l))])"
  have "wsum ?t \<le> wsum (dict_set tk ''content'' (JStr (link_text l)))"
    by (rule wsum_dict_set_zero) simp
  also have "\<dots> \<le> wsum tk" by (rule wsum_dict_set_zero) simp
  finally have "wt (JDict ?t) \<le> 2 + wsum tk" using wt_JDict_le[of ?t] by simp
  also have "\<dots> = wt (JDict tk)"
    using not_link_obj_key[OF assms(2)] by (simp add: wt_JDict_eq)
  finally show ?thesis
    unfolding set_link_def using wt_dict_set_container[OF assms(1)] by simp
qed

lemma resolve_text_wt:
  assumes "resolve_text lk kvs = Inr (Some kvs2)"
  shows "wt (JDict kvs2) \<le> wt (JDict kvs)"
proof -
  from assms obtain tk c l where "dict_get kvs ''text'' = Some (JDict tk)"
    "dict_get tk ''content'' = Some c" "kvs2 = set_link kvs tk l"
    by (auto simp: resolve_text_def split: option.splits json.splits sum.splits)
  then show ?thesis using set_link_wt by simp
qed

lemma map_values_wsum:
  "map_values f kvs = Inr kvs3 \<Longrightarrow> (\<forall>(k, v)\<in>set kvs. is_container v \<longrightarrow> shrinks f v)
     \<Longrightarrow> wsum kvs3 \<le> wsum kvs"
proof (induction kvs arbitrary: kvs3)
  case Nil
  then show ?case by (simp add: map_values_def)
next
  case (Cons kv kvs)
  obtain k v where kv: "kv = (k, v)" by (cases kv)
  from Cons.prems(1) kv obtain v' rest where
    v': "if is_container v then f v = Inr v' else v' = v"
    and rest: "map_values f kvs = Inr rest" and k3: "kvs3 = (k, v') # rest"
    by (auto simp: map_values_def split: sum.splits if_splits)
  have "wt v' \<le> wt v"
    using v' Cons.prems(2) kv by (auto simp: shrinks_def split: if_splits)
  moreover have "wsum rest \<le> wsum kvs"
    using Cons.IH[OF rest] Cons.prems(2) by simp
  ultimately show ?case using k3 kv by simp
qed

lemma map_values_link_obj: "is_link_obj (JDict kvs) \<Longrightarrow> map_values f kvs = Inr kvs"
  by (auto simp: map_values_def elim!: is_link_objE)

lemma map_values_wt:
  assumes "map_values f kvs = Inr kvs3" "\<forall>(k, v)\<in>set kvs. is_container v \<longrightarrow> shrinks f v"
  shows "wt (JDict kvs3) \<le> wt (JDict kvs)"
proof (cases "is_link_obj (JDict kvs)")
  case True
  with assms(1) map_values_link_obj[OF True, of f] show ?thesis by simp
next
  case False
  have "wt (JDict kvs3) \<le> 2 + wsum kvs3" by (rule wt_JDict_le)
  also have "\<dots> \<le> 2 + wsum kvs" using map_values_wsum[OF assms] by simp
  finally show ?thesis using False by (simp add: wt_JDict_eq)
qed

lemma weight_le_of_wt_le:
  assumes "wt (JDict b1) \<le> wt (JDict b)" shows "weight (JDict b1) \<le> weight (JDict b)"
proof (cases "is_link_obj (JDict b)")
  case True
  then have "wt (JDict b) = 0" by (simp add: wt_def)
  with assms have "wt (JDict b1) = 0" by simp
  then have "is_link_obj (JDict b1)" by (simp add: wt_def weight_JDict split: if_splits)
  with True show ?thesis by (simp add: weight_JDict)
next
  case False
  have "weight (JDict b1) \<le> Suc (wt (JDict b1))" by (rule weight_le_Suc_wt)
  moreover have "wt (JDict b) = weight (JDict b)" using False by (simp add: wt_def)
  moreover have "is_link_obj (JDict b1) \<Longrightarrow> weight (JDict b1) \<le> weight (JDict b)"
    using False by (simp add: weight_JDict)
  moreover have "\<not> is_link_obj (JDict b1) \<Longrightarrow> wt (JDict b1) = weight (JDict b1)"
    by (simp add: wt_def)
  ultimately show ?thesis using assms by (cases "is_link_obj (JDict b1)") auto
qed

lemma process_block_shrinks_dom:
  "process_block_dom (lk, j) \<Longrightarrow> shrinks (process_block lk) j"
proof (induction lk j rule: process_block.pinduct)
  case (1 lk block)
  show ?case
    unfolding shrinks_def
  proof (intro allI impI)
    fix y assume y: "process_block lk (JDict block) = Inr y"
    from y obtain block1 where b1: "table_walk (process_block lk) block = Inr block1"
      by (auto simp: process_block.psimps(1)[OF 1(1)] split: sum.splits)
    have w1: "wt (JDict block1) \<le> wt (JDict block)"
      using table_walk_wsum[OF _ b1] 1(2) by blast
    show "wt y \<le> wt (JDict block)"
    proof (cases "resolve_text lk block1")
      case (Inl e)
      with y b1 show ?thesis by (simp add: process_block.psimps(1)[OF 1(1)])
    next
      case (Inr res)
      show ?thesis
      proof (cases res)
        case (Some block2)
        with y b1 Inr have "y = JDict block2" by (simp add: process_block.psimps(1)[OF 1(1)])
        with resolve_text_wt[of lk block1 block2] Inr Some w1 show ?thesis by simp
      next
        case None
        with y b1 Inr obtain block3 where b3: "map_values (process_block lk) block1 = Inr block3"
          and yb: "y = JDict block3"
          by (auto simp: process_block.psimps(1)[OF 1(1)] split: sum.splits)
        have "\<forall>(k, v)\<in>set block1. is_container v \<longrightarrow> shrinks (process_block lk) v"
          using 1(3)[OF b1 Inr None] by blast
        from map_values_wt[OF b3 this] w1 yb show ?thesis by simp
      qed
    qed
  qed
next
  case (2 lk xs)
  show ?case
    unfolding shrinks_def
  proof (intro allI impI)
    fix y assume y: "process_block lk (JList xs) = Inr y"
    then obtain ys where ys: "map_err (process_block lk) xs = Inr ys" and yy: "y = JList ys"
      by (auto simp: process_block.psimps(2)[OF 2(1)] split: sum.splits)
    have "sum_list (map wt ys) \<le> sum_list (map wt xs)"
      using map_err_wt[OF ys] 2(2) by blast
    then show "wt y \<le> wt (JList xs)" using yy by (simp add: wt_JList_eq)
  qed
qed (simp_all add: shrinks_def process_block.psimps)

termination process_block
proof (relation "measure (\<lambda>(lk, j). weight j)", goal_cases)
  case 1
  show ?case by simp
next
  case (2 lk block x)
  then show ?case by (simp add: weight_table_items_less)
next
  case (3 lk block b ba k v)
  have "\<forall>x\<in>set (table_items block). shrinks (process_block lk) x"
    using 3(6) process_block_shrinks_dom by blast
  from table_walk_wsum[OF this 3(1)] have "weight (JDict b) \<le> weight (JDict block)"
    by (rule weight_le_of_wt_le)
  moreover have "weight v < weight (JDict b)" using 3(4) by (rule weight_value_less)
  ultimately show ?case by simp
next
  case (4 lk xs x)
  then show ?case by (simp add: weight_elem_less)
qed

definition postprocess_notion_blocks :: "json \<Rightarrow> link list \<Rightarrow> py_error + json" where
  "postprocess_notion_blocks blocks extracted_links =
     (if extracted_links = [] then Inr blocks
      else process_block (link_lookup extracted_links) blocks)"

text \<open>\<^verbatim>\<open>fix_markdown_links\<close>; the converter is the parameter \<^verbatim>\<open>converter_func\<close>.\<close>

definition fix_markdown_links :: "string \<Rightarrow> (string \<Rightarrow> json) \<Rightarrow> py_error + json" where
  "fix_markdown_links markdown_content converter_func =
     (case preprocess_markdown_links markdown_content of
        (processed_content, extracted_links) \<Rightarrow>
          (let blocks = converter_func processed_content
           in if extracted_links \<noteq> [] then postprocess_notion_blocks blocks extracted_links
              else Inr blocks))"

section \<open>The built-in converter\<close>

text \<open>
  \<^verbatim>\<open>MarkdownConverter._convert_with_bs4\<close> renders the text with the \<^verbatim>\<open>markdown\<close> package,
  parses the result with BeautifulSoup and walks the top-level elements of the document.
  Neither package belongs to the repository, so the parsed document is a parameter of the
  model and the walk is embedded. An element is a string (\<^verbatim>\<open>NavigableString\<close>) or a tag
  with its name, its attributes and its children.
\<close>

datatype node = NText string | Tag string "(string \<times> string) list" "node list"

text \<open>
  \<^verbatim>\<open>get_text()\<close>, \<^verbatim>\<open>find_all(names)\<close> over the descendants in document order,
  \<^verbatim>\<open>find(name)\<close> as its first result, \<^verbatim>\<open>find_all(name, recursive=False)\<close> over the children,
  and \<^verbatim>\<open>has_attr\<close> with the subscript as a lookup that may fail.
\<close>

fun get_text :: "node \<Rightarrow> string" where
  "get_text (NText s) = s"
| "get_text (Tag name attrs children) = concat (map get_text children)"

fun descendants :: "node \<Rightarrow> node list" where
  "descendants (NText s) = []"
| "descendants (Tag name attrs children) = concat (map (\<lambda>c. c # descendants c) children)"

fun named :: "string list \<Rightarrow> node \<Rightarrow> bool" where
  "named names (NText s) = False"
| "named names (Tag name attrs children) = (name \<in> set names)"

definition find_all :: "string list \<Rightarrow> node \<Rightarrow> node list" where
  "find_all names element = filter (named names) (descendants element)"

definition find_first :: "string list \<Rightarrow> node \<Rightarrow> node option" where
  "find_first names element = (case find_all names element of [] \<Rightarrow> None | x # _ \<Rightarrow> Some x)"

fun child_nodes :: "node \<Rightarrow> node list" where
  "child_nodes (NText s) = []"
| "child_nodes (Tag name attrs children) = children"

definition find_children :: "string list \<Rightarrow> node \<Rightarrow> node list" where
  "find_children names element = filter (named names) (child_nodes element)"

fun get_attr :: "node \<Rightarrow> string \<Rightarrow> string option" where
  "get_attr (NText s) k = None"
| "get_attr (Tag name attrs children) k = dict_get attrs k"

text \<open>
  The attribute \<^verbatim>\<open>class\<close> is kept as the string of the document; BeautifulSoup hands it
  over as the list of its words.
\<close>

fun words_from :: "string \<Rightarrow> string \<Rightarrow> string list" where
  "words_from cur [] = (if cur = [] then [] else [cur])"
| "words_from cur (c # cs) =
     (if isspace c then (if cur = [] then words_from [] cs else cur # words_from [] cs)
      else words_from (cur @ [c]) cs)"

definition class_list :: "string \<Rightarrow> string list" where
  "class_list v = words_from [] v"

text \<open>
  The dictionary of a run, \<^verbatim>\<open>{"type": "text", "text": {"content": c}}\<close>, with the key
  \<^verbatim>\<open>link\<close> inside \<^verbatim>\<open>text\<close> when there is a target and the key \<^verbatim>\<open>annotations\<close> when the tag
  of the child asks for one.
\<close>

definition text_obj :: "string \<Rightarrow> string option \<Rightarrow> string option \<Rightarrow> json" where
  "text_obj content href annotation =
     JDict ([(''type'', JStr ''text''),
             (''text'', JDict ((''content'', JStr content) #
                (case href of None \<Rightarrow> [] | Some u \<Rightarrow> [(''link'', JDict [(''url'', JStr u)])])))] @
            (case annotation of None \<Rightarrow> [] | Some a \<Rightarrow> [(''annotations'', JDict [(a, JBool True)])]))"

definition annotation_of :: "string \<Rightarrow> string option" where
  "annotation_of name =
     (if name = ''strong'' \<or> name = ''b'' then Some ''bold''
      else if name = ''em'' \<or> name = ''i'' then Some ''italic''
      else if name = ''u'' then Some ''underline''
      else if name = ''code'' then Some ''code''
      else if name = ''del'' \<or> name = ''s'' then Some ''strikethrough''
      else None)"

text \<open>
  \<^verbatim>\<open>process_rich_text_element\<close>: an element that is a link gives one run; any other
  element gives the runs of its children, and \<^verbatim>\<open>child_rich_text\<close> is the body of that loop
  (a string child is kept when it is not blank, a tag child when its text is not empty).
\<close>

fun child_rich_text :: "node \<Rightarrow> json list" where
  "child_rich_text (NText s) = (if strip s \<noteq> [] then [text_obj s None None] else [])"
| "child_rich_text (Tag name attrs children) =
     (case (if name = ''a'' then dict_get attrs ''href'' else None) of
        Some href \<Rightarrow>
          (let link_text = get_text (Tag name attrs children)
           in if link_text \<noteq> [] then [text_obj link_text (Some href) None] else [])
      | None \<Rightarrow>
          (let text_content = get_text (Tag name attrs children)
           in if text_content = [] then []
              else [text_obj text_content
                      (case find_first [''a''] (Tag name attrs children) of
                         None \<Rightarrow> None
                       | Some link \<Rightarrow> get_attr link ''href'')
                      (annotation_of name)]))"

fun process_rich_text_element :: "node \<Rightarrow> json list" where
  "process_rich_text_element (NText s) = [text_obj s None None]"
| "process_rich_text_element (Tag name attrs children) =
     (case (if name = ''a'' then dict_get attrs ''href'' else None) of
        Some href \<Rightarrow>
          (let text_content = get_text (Tag name attrs children)
           in if text_content \<noteq> [] then [text_obj text_content (Some href) None] else [])
      | None \<Rightarrow> concat (map child_rich_text children))"

definition rich_text_block :: "string \<Rightarrow> json list \<Rightarrow> json" where
  "rich_text_block type rich_text =
     JDict [(''object'', JStr ''block''), (''type'', JStr type),
            (type, JDict [(''rich_text'', JList rich_text)])]"

text \<open>
  The rows of a table. \<^verbatim>\<open>pad_cells\<close> is the \<^verbatim>\<open>while\<close> loop that appends cells holding one run
  of empty content until the row has \<^verbatim>\<open>table_width\<close> cells; \<^verbatim>\<open>trim_cells\<close> is the slice that
  follows it.
\<close>

definition pad_cell :: "json list" where
  "pad_cell = [text_obj [] None None]"

function pad_cells :: "nat \<Rightarrow> json list list \<Rightarrow> json list list" where
  "pad_cells table_width row_cells =
     (if length row_cells < table_width then pad_cells table_width (row_cells @ [pad_cell])
      else row_cells)"
  by pat_completeness auto
termination pad_cells
  by (relation "measure (\<lambda>(w, cells). w - length cells)") auto

declare pad_cells.simps [simp del]

definition trim_cells :: "nat \<Rightarrow> json list list \<Rightarrow> json list list" where
  "trim_cells table_width row_cells =
     (if length row_cells > table_width then take table_width row_cells else row_cells)"

definition table_row :: "nat \<Rightarrow> node \<Rightarrow> json" where
  "table_row table_width row =
     (let cells = find_all [''th'', ''td''] row;
          row_cells = map process_rich_text_element cells;
          row_cells = pad_cells table_width row_cells;
          row_cells = trim_cells table_width row_cells
      in JDict [(''type'', JStr ''table_row''),
                (''table_row'', JDict [(''cells'', JList (map JList row_cells))])])"

text \<open>
  The branch for \<^verbatim>\<open>table\<close>. The calls inside its \<^verbatim>\<open>try\<close> block (\<^verbatim>\<open>find_all\<close>, \<^verbatim>\<open>find\<close>,
  \<^verbatim>\<open>process_rich_text_element\<close>) raise nothing on a parsed document, so the handler of
  the block is never entered and is left out.
\<close>

definition table_blocks :: "node \<Rightarrow> json list" where
  "table_blocks element =
     (case find_all [''tr''] element of
        [] \<Rightarrow> []
      | first_row # more_rows \<Rightarrow>
          (let header_cells = find_all [''th'', ''td''] first_row;
               table_width = length header_cells
           in if table_width = 0 then []
              else (let has_header = (find_first [''th''] first_row \<noteq> None);
                        table_rows = map (table_row table_width) (first_row # more_rows)
                    in [JDict [(''object'', JStr ''block''), (''type'', JStr ''table''),
                               (''table'',
                                  JDict [(''table_width'', JNum (int table_width)),
                                         (''has_column_header'', JBool has_header),
                                         (''has_row_header'', JBool False),
                                         (''children'', JList table_rows)])]])))"

fun first_language :: "string list \<Rightarrow> string option" where
  "first_language [] = None"
| "first_language (cls # rest) =
     (if startswith cls ''language-'' then Some (drop 9 cls) else first_language rest)"

definition code_language :: "node \<Rightarrow> string" where
  "code_language element =
     (case find_first [''code''] element of
        None \<Rightarrow> ''plain text''
      | Some code_element \<Rightarrow>
          (case get_attr code_element ''class'' of
             None \<Rightarrow> ''plain text''
           | Some v \<Rightarrow> (case first_language (class_list v) of
                          None \<Rightarrow> ''plain text'' | Some language \<Rightarrow> language)))"

definition paragraph_children :: "node list \<Rightarrow> json list" where
  "paragraph_children children =
     concat (map (\<lambda>child. if named [''p''] child
                    then [rich_text_block ''paragraph'' (process_rich_text_element child)]
                    else []) children)"

definition fallback_paragraph :: "node \<Rightarrow> json list" where
  "fallback_paragraph element =
     (let text_content = strip (get_text element)
      in if text_content \<noteq> [] then [rich_text_block ''paragraph'' [text_obj text_content None None]]
         else [])"

text \<open>The loop over the top-level elements: the blocks that one element contributes.\<close>

fun element_blocks :: "node \<Rightarrow> json list" where
  "element_blocks (NText s) = []"
| "element_blocks (Tag name attrs children) =
     (let element = Tag name attrs children in
      if name = ''h1'' then [rich_text_block ''heading_1'' (process_rich_text_element element)]
      else if name = ''h2'' then [rich_text_block ''heading_2'' (process_rich_text_element element)]
      else if name = ''h3'' then [rich_text_block ''heading_3'' (process_rich_text_element element)]
      else if name = ''p'' then
        (if strip (get_text element) = [] then []
         else [rich_text_block ''paragraph'' (process_rich_text_element element)])
      else if name = ''ul'' then
        map (\<lambda>li. rich_text_block ''bulleted_list_item'' (process_rich_text_element li))
            (find_children [''li''] element)
      else if name = ''ol'' then
        map (\<lambda>li. rich_text_block ''numbered_list_item'' (process_rich_text_element li))
            (find_children [''li''] element)
      else if name = ''blockquote'' then [rich_text_block ''quote'' (process_rich_text_element element)]
      else if name = ''pre'' then
        [JDict [(''object'', JStr ''block''), (''type'', JStr ''code''),
                (''code'', JDict [(''rich_text'', JList [text_obj (get_text element) None None]),
                                  (''language'', JStr (code_language element))])]]
      else if name = ''hr'' then
        [JDict [(''object'', JStr ''block''), (''type'', JStr ''divider''), (''divider'', JDict [])]]
      else if name = ''table'' then table_blocks element
      else if name = ''img'' \<and> dict_get attrs ''src'' \<noteq> None then
        (case dict_get attrs ''src'' of
           None \<Rightarrow> []
         | Some src \<Rightarrow>
             if startswith src ''http://'' \<or> startswith src ''https://'' then
               [JDict [(''object'', JStr ''block''), (''type'', JStr ''image''),
                       (''image'', JDict [(''type'', JStr ''external''),
                                          (''external'', JDict [(''url'', JStr src)])])]]
             else [])
      else if name = ''div'' \<or> name = ''span'' then
        (let div_blocks = paragraph_children children
         in if div_blocks \<noteq> [] then div_blocks
            else [rich_text_block ''paragraph'' (process_rich_text_element element)])
      else fallback_paragraph element)"

text \<open>
  \<^verbatim>\<open>libs_available\<close> is the flag \<^verbatim>\<open>MARKDOWN_LIBS_AVAILABLE\<close>; \<^verbatim>\<open>parse_markdown\<close> stands for
  \<^verbatim>\<open>BeautifulSoup(markdown.markdown(md_content, extensions=[...]), 'html.parser').children\<close>.
  \<^verbatim>\<open>convert_with_bs4\<close> is \<^verbatim>\<open>_convert_with_bs4\<close> on a string, which the block at its head
  passes through unchanged.
\<close>

record libraries =
  libs_available :: bool
  parse_markdown :: "string \<Rightarrow> node list"

definition convert_with_bs4 :: "libraries \<Rightarrow> string \<Rightarrow> json list" where
  "convert_with_bs4 libs md_content =
     (if md_content = [] \<or> \<not> libs_available libs then []
      else concat (map element_blocks (parse_markdown libs md_content)))"

text \<open>The built-in converter as the argument \<^verbatim>\<open>converter_func\<close> of \<^verbatim>\<open>fix_markdown_links\<close>.\<close>

definition builtin_converter :: "libraries \<Rightarrow> string \<Rightarrow> json" where
  "builtin_converter libs md_content = JList (convert_with_bs4 libs md_content)"

section \<open>The blocks of the converter as a datatype\<close>

text \<open>
  The statements below speak of runs and blocks rather than of nested dictionaries. A run
  has a content, an optional link target and an optional annotation; a block is one of the
  variants that the built-in converter builds. \<^verbatim>\<open>run_json\<close> and \<^verbatim>\<open>block_json\<close> give the
  dictionaries that the converter writes for them.
\<close>

datatype text_run = Run string "string option" "string option"

fun run_json :: "text_run \<Rightarrow> json" where
  "run_json (Run content href annotation) = text_obj content href annotation"

datatype rich_kind = Heading1 | Heading2 | Heading3 | Paragraph | BulletItem | NumberedItem | Quote

fun kind_name :: "rich_kind \<Rightarrow> string" where
  "kind_name Heading1 = ''heading_1''"
| "kind_name Heading2 = ''heading_2''"
| "kind_name Heading3 = ''heading_3''"
| "kind_name Paragraph = ''paragraph''"
| "kind_name BulletItem = ''bulleted_list_item''"
| "kind_name NumberedItem = ''numbered_list_item''"
| "kind_name Quote = ''quote''"

datatype block =
    RichText rich_kind "text_run list"
  | CodeBlock text_run string
  | Divider
  | Image string
  | Table nat bool "text_run list list list"

definition row_json :: "text_run list list \<Rightarrow> json" where
  "row_json cells =
     JDict [(''type'', JStr ''table_row''),
            (''table_row'', JDict [(''cells'', JList (map (\<lambda>cell. JList (map run_json cell)) cells))])]"

fun block_json :: "block \<Rightarrow> json" where
  "block_json (RichText kind runs) = rich_text_block (kind_name kind) (map run_json runs)"
| "block_json (CodeBlock run language) =
     JDict [(''object'', JStr ''block''), (''type'', JStr ''code''),
            (''code'', JDict [(''rich_text'', JList [run_json run]), (''language'', JStr language)])]"
| "block_json Divider =
     JDict [(''object'', JStr ''block''), (''type'', JStr ''divider''), (''divider'', JDict [])]"
| "block_json (Image src) =
     JDict [(''object'', JStr ''block''), (''type'', JStr ''image''),
            (''image'', JDict [(''type'', JStr ''external''),
                               (''external'', JDict [(''url'', JStr src)])])]"
| "block_json (Table table_width has_header rows) =
     JDict [(''object'', JStr ''block''), (''type'', JStr ''table''),
            (''table'',
               JDict [(''table_width'', JNum (int table_width)),
                      (''has_column_header'', JBool has_header),
                      (''has_row_header'', JBool False),
                      (''children'', JList (map row_json rows))])]"

text \<open>
  What postprocessing does to a run and to a block, stated on the datatype; the lemma
  \<^verbatim>\<open>postprocess_typed_blocks\<close> proves it of \<^verbatim>\<open>postprocess_notion_blocks\<close>.
  One visit of a run looks for the first entry of the lookup whose placeholder occurs in the
  content; if there is one, the run takes its text and its target and keeps its annotation.
  A run in a cell of a table is visited twice, every other run once.
\<close>

fun resolve_run :: "lookup \<Rightarrow> text_run \<Rightarrow> text_run" where
  "resolve_run lk (Run content href annotation) =
     (case find (\<lambda>pl. sublist (fst pl) content) lk of
        None \<Rightarrow> Run content href annotation
      | Some (p, link_data) \<Rightarrow> Run (link_text link_data) (Some (link_url link_data)) annotation)"

fun resolve_block :: "lookup \<Rightarrow> block \<Rightarrow> block" where
  "resolve_block lk (RichText kind runs) = RichText kind (map (resolve_run lk) runs)"
| "resolve_block lk (CodeBlock run language) = CodeBlock (resolve_run lk run) language"
| "resolve_block lk Divider = Divider"
| "resolve_block lk (Image src) = Image src"
| "resolve_block lk (Table table_width has_header rows) =
     Table table_width has_header
       (map (map (map (\<lambda>run. resolve_run lk (resolve_run lk run)))) rows)"

section \<open>Properties\<close>

subsection \<open>Notions used in the statements\<close>

text \<open>The tokens that preprocessing writes for the entry with a given number.\<close>

definition md_token :: "nat \<Rightarrow> string" where
  "md_token n = ''LINKPLACEHOLDER_'' @ str_nat n"

definition url_token :: "nat \<Rightarrow> string" where
  "url_token n = ''URLLINKPLACEHOLDER_'' @ str_nat n"

definition digit_val :: "char \<Rightarrow> nat" where
  "digit_val c = of_char c - 48"

text \<open>
  The entries that one pass appends to \<^verbatim>\<open>extracted_links\<close> carry consecutive numbers,
  starting at the length of the list before the pass.
\<close>

definition numbered :: "(nat \<Rightarrow> string) \<Rightarrow> nat \<Rightarrow> link list \<Rightarrow> bool" where
  "numbered tok base new = (\<forall>k<length new. placeholder (new ! k) = tok (base + k))"


text \<open>
  A fence line is a line whose stripped text starts with three backquotes. The flag
  \<^verbatim>\<open>in_code_block\<close> before line \<^verbatim>\<open>i\<close> is the start value, flipped once for every fence
  line above.
\<close>

definition is_fence :: "string \<Rightarrow> bool" where
  "is_fence line = startswith (strip line) ''```''"

definition in_code_at :: "bool \<Rightarrow> string list \<Rightarrow> nat \<Rightarrow> bool" where
  "in_code_at start lines i = (if odd (length (filter is_fence (take i lines))) then \<not> start else start)"

text \<open>The type of a block, and the cells of a table row as the converter finds them.\<close>

definition block_type :: "json \<Rightarrow> string option" where
  "block_type b =
     (case b of
        JDict kvs \<Rightarrow> (case dict_get kvs ''type'' of Some (JStr t) \<Rightarrow> Some t | _ \<Rightarrow> None)
      | _ \<Rightarrow> None)"

definition source_cells :: "node \<Rightarrow> json list list" where
  "source_cells row = map process_rich_text_element (find_all [''th'', ''td''] row)"

text \<open>
  A token occurs in a block when some dictionary in it has a \<^verbatim>\<open>text\<close> dictionary whose
  \<^verbatim>\<open>content\<close> answers \<^verbatim>\<open>True\<close> to the test \<^verbatim>\<open>placeholder in content\<close>, for a placeholder of
  the lookup, bare or in brackets. The predicate asks nothing else of the block: a content
  that cannot be searched holds no token.
\<close>

definition has_token :: "lookup \<Rightarrow> (string \<times> json) list \<Rightarrow> bool" where
  "has_token lk kvs =
     (case dict_get kvs ''text'' of
        Some (JDict tk) \<Rightarrow>
          (case dict_get tk ''content'' of
             None \<Rightarrow> False
           | Some content \<Rightarrow>
               list_ex (\<lambda>pl. py_in (fst pl) content = Inr True \<or>
                             py_in (bracketed (fst pl)) content = Inr True) lk)
      | _ \<Rightarrow> False)"

fun mentions :: "lookup \<Rightarrow> json \<Rightarrow> bool" where
  "mentions lk (JDict kvs) = (has_token lk kvs \<or> list_ex (\<lambda>kv. mentions lk (snd kv)) kvs)"
| "mentions lk (JList xs) = list_ex (mentions lk) xs"
| "mentions lk _ = False"






subsection \<open>Inputs of the examples\<close>

text \<open>
  A text with two markdown links and ten bare URLs, with what preprocessing makes of it;
  and the two entries recorded for \<^verbatim>\<open>[LINKPLACEHOLDER_1](u0) [final](u1)\<close>, a text in which
  the display text of the first link reads like a token.
\<close>

definition example_markdown :: string where
  "example_markdown =
     ''[a](u) [b](v) http://c2 http://c3 http://c4 http://c5 http://c6 http://c7 http://c8 http://c9 http://c10 http://c11''"

definition example_masked :: string where
  "example_masked =
     ''[LINKPLACEHOLDER_0] [LINKPLACEHOLDER_1] URLLINKPLACEHOLDER_2 URLLINKPLACEHOLDER_3 URLLINKPLACEHOLDER_4 URLLINKPLACEHOLDER_5 URLLINKPLACEHOLDER_6 URLLINKPLACEHOLDER_7 URLLINKPLACEHOLDER_8 URLLINKPLACEHOLDER_9 URLLINKPLACEHOLDER_10 URLLINKPLACEHOLDER_11''"

definition example_links :: "link list" where
  "example_links =
     [\<lparr>placeholder = ''LINKPLACEHOLDER_0'', link_text = ''a'', link_url = ''u''\<rparr>,
      \<lparr>placeholder = ''LINKPLACEHOLDER_1'', link_text = ''b'', link_url = ''v''\<rparr>,
      \<lparr>placeholder = ''URLLINKPLACEHOLDER_2'', link_text = ''http://c2'', link_url = ''http://c2''\<rparr>,
      \<lparr>placeholder = ''URLLINKPLACEHOLDER_3'', link_text = ''http://c3'', link_url = ''http://c3''\<rparr>,
      \<lparr>placeholder = ''URLLINKPLACEHOLDER_4'', link_text = ''http://c4'', link_url = ''http://c4''\<rparr>,
      \<lparr>placeholder = ''URLLINKPLACEHOLDER_5'', link_text = ''http://c5'', link_url = ''http://c5''\<rparr>,
      \<lparr>placeholder = ''URLLINKPLACEHOLDER_6'', link_text = ''http://c6'', link_url = ''http://c6''\<rparr>,
      \<lparr>placeholder = ''URLLINKPLACEHOLDER_7'', link_text = ''http://c7'', link_url = ''http://c7''\<rparr>,
      \<lparr>placeholder = ''URLLINKPLACEHOLDER_8'', link_text = ''http://c8'', link_url = ''http://c8''\<rparr>,
      \<lparr>placeholder = ''URLLINKPLACEHOLDER_9'', link_text = ''http://c9'', link_url = ''http://c9''\<rparr>,
      \<lparr>placeholder = ''URLLINKPLACEHOLDER_10'', link_text = ''http://c10'', link_url = ''http://c10''\<rparr>,
      \<lparr>placeholder = ''URLLINKPLACEHOLDER_11'', link_text = ''http://c11'', link_url = ''http://c11''\<rparr>]"

definition nested_links :: "link list" where
  "nested_links =
     [\<lparr>placeholder = ''LINKPLACEHOLDER_0'', link_text = ''LINKPLACEHOLDER_1'', link_url = ''u0''\<rparr>,
      \<lparr>placeholder = ''LINKPLACEHOLDER_1'', link_text = ''final'', link_url = ''u1''\<rparr>]"

text \<open>Three blocks: two without a token of \<^verbatim>\<open>nested_links\<close>, one with a token.\<close>

definition plain_paragraph :: json where
  "plain_paragraph = block_json (RichText Paragraph [Run ''no link here'' None None])"

definition token_paragraph :: json where
  "token_paragraph = block_json (RichText Paragraph [Run ''[LINKPLACEHOLDER_0]'' None None])"

definition plain_table :: json where
  "plain_table = block_json (Table 2 True [[[Run ''A'' None None], [Run ''B'' None None]],
                                           [[Run ''x'' None None], [Run [] None None]]])"

text \<open>
  A table written as markup with rows of one, two and three cells, the document it parses
  to, and the block of the converter for it.
\<close>

definition example_table_text :: string where
  "example_table_text =
     ''<table><tr><th>A</th><th>B</th></tr><tr><td>x</td></tr><tr><td>1</td><td>2</td><td>3</td></tr></table>''"

definition example_table_dom :: node where
  "example_table_dom =
     Tag ''table'' []
       [Tag ''tr'' [] [Tag ''th'' [] [NText ''A''], Tag ''th'' [] [NText ''B'']],
        Tag ''tr'' [] [Tag ''td'' [] [NText ''x'']],
        Tag ''tr'' [] [Tag ''td'' [] [NText ''1''], Tag ''td'' [] [NText ''2''], Tag ''td'' [] [NText ''3'']]]"

definition example_table_block :: "(string \<times> json) list" where
  "example_table_block =
     [(''object'', JStr ''block''), (''type'', JStr ''table''),
      (''table'',
         JDict [(''table_width'', JNum 2), (''has_column_header'', JBool True),
                (''has_row_header'', JBool False),
                (''children'',
                   JList [JDict [(''type'', JStr ''table_row''),
                                 (''table_row'', JDict [(''cells'',
                                    JList [JList [text_obj ''A'' None None],
                                           JList [text_obj ''B'' None None]])])],
                          JDict [(''type'', JStr ''table_row''),
                                 (''table_row'', JDict [(''cells'',
                                    JList [JList [text_obj ''x'' None None],
                                           JList [text_obj '''' None None]])])],
                          JDict [(''type'', JStr ''table_row''),
                                 (''table_row'', JDict [(''cells'',
                                    JList [JList [text_obj ''1'' None None],
                                           JList [text_obj ''2'' None None]])])]])])]"

text \<open>
  Texts with a fenced code block: one with a markdown link and a bare URL inside the fence,
  with its masked form; one with the same URL inside and outside a fence, with its masked
  form; and one in which a markdown link starts before a fence and ends after it.
\<close>

definition empty_pre_text :: string where
  "empty_pre_text = ''<pre></pre>''"


definition fence_masked :: string where
  "fence_masked = ''```'' @ [CHR 0x0A] @ ''see [LINKPLACEHOLDER_0] and https://x.com'' @ [CHR 0x0A] @ ''```''"


definition twice_masked :: string where
  "twice_masked = ''```'' @ [CHR 0x0A] @ ''https://x.com'' @ [CHR 0x0A] @ ''```'' @ [CHR 0x0A, CHR 0x0A] @
                  ''URLLINKPLACEHOLDER_0''"





text \<open>
  A library for the examples. It parses the example texts as the \<^verbatim>\<open>markdown\<close> package
  with the fenced-code extension renders them (markup is passed through, a fenced block
  becomes \<^verbatim>\<open>pre\<close> around \<^verbatim>\<open>code\<close>), and any other text as one paragraph holding the text.
\<close>

definition example_library :: libraries where
  "example_library =
     \<lparr>libs_available = True,
      parse_markdown = (\<lambda>s.
        if s = example_table_text then [example_table_dom]
        else if s = empty_pre_text then [Tag ''pre'' [] []]
        else if s = fence_masked then
          [Tag ''pre'' [(''class'', ''codehilite'')]
             [Tag ''code'' [] [NText (''see [LINKPLACEHOLDER_0] and https://x.com'' @ [CHR 0x0A])]]]
        else if s = twice_masked then
          [Tag ''pre'' [(''class'', ''codehilite'')]
             [Tag ''code'' [] [NText (''https://x.com'' @ [CHR 0x0A])]],
           NText [CHR 0x0A],
           Tag ''p'' [] [NText ''URLLINKPLACEHOLDER_0'']]
        else [Tag ''p'' [] [NText s]])\<rparr>"

subsection \<open>Auxiliary facts: preprocessing\<close>

lemma numbered_Nil [simp]: "numbered tok base []"
  by (simp add: numbered_def)

lemma numbered_Cons:
  "numbered tok base (x # new) \<longleftrightarrow> placeholder x = tok base \<and> numbered tok (Suc base) new"
  unfolding numbered_def
proof
  assume a: "\<forall>k<length (x # new). placeholder ((x # new) ! k) = tok (base + k)"
  have "placeholder x = tok base" using a[rule_format, of 0] by simp
  moreover have "\<forall>k<length new. placeholder (new ! k) = tok (Suc base + k)"
  proof (intro allI impI)
    fix k assume "k < length new"
    then show "placeholder (new ! k) = tok (Suc base + k)"
      using a[rule_format, of "Suc k"] by simp
  qed
  ultimately show "placeholder x = tok base \<and> (\<forall>k<length new. placeholder (new ! k) = tok (Suc base + k))"
    by simp
next
  assume a: "placeholder x = tok base \<and> (\<forall>k<length new. placeholder (new ! k) = tok (Suc base + k))"
  show "\<forall>k<length (x # new). placeholder ((x # new) ! k) = tok (base + k)"
  proof (intro allI impI)
    fix k assume "k < length (x # new)"
    then show "placeholder ((x # new) ! k) = tok (base + k)"
      using a by (cases k) auto
  qed
qed

lemma md_link_step_numbered:
  "md_link_step c cs links = (emitted, links1, rest) \<Longrightarrow>
     \<exists>new. links1 = links @ new \<and> numbered md_token (length links) new"
  by (cases "match_md_link (c # cs)")
     (auto simp: md_link_step_def replace_markdown_link_def md_token_def numbered_Cons)

lemma replace_bare_url_numbered:
  "replace_bare_url mc start u links = (repl, links1) \<Longrightarrow>
     \<exists>new. links1 = links @ new \<and> numbered url_token (length links) new"
  by (auto simp: replace_bare_url_def Let_def url_token_def numbered_Cons split: if_splits)

lemma numbered_append:
  "numbered tok base a \<Longrightarrow> numbered tok (base + length a) b \<Longrightarrow> numbered tok base (a @ b)"
proof (induction a arbitrary: base)
  case Nil
  then show ?case by simp
next
  case (Cons x a)
  then show ?case by (simp add: numbered_Cons)
qed

lemma numbered_chain:
  assumes "l1 = l0 @ a" "numbered tok (length l0) a" "l2 = l1 @ b" "numbered tok (length l1) b"
  shows "\<exists>new. l2 = l0 @ new \<and> numbered tok (length l0) new"
proof -
  have "numbered tok (length l0) (a @ b)"
    using assms by (intro numbered_append) simp_all
  moreover have "l2 = l0 @ (a @ b)" using assms by simp
  ultimately show ?thesis by blast
qed

lemma sub_md_links_numbered:
  "sub_md_links s links = (out, links') \<Longrightarrow>
     \<exists>new. links' = links @ new \<and> numbered md_token (length links) new"
proof (induction s links arbitrary: out links' rule: sub_md_links.induct)
  case (1 links)
  then show ?case by simp
next
  case (2 c cs links)
  obtain emitted links1 rest where st: "md_link_step c cs links = (emitted, links1, rest)"
    by (cases "md_link_step c cs links")
  obtain out1 links2 where r: "sub_md_links rest links1 = (out1, links2)"
    by (cases "sub_md_links rest links1")
  from "2.prems" st r have l': "links' = links2" by simp
  from md_link_step_numbered[OF st] obtain a where
    a: "links1 = links @ a" "numbered md_token (length links) a" by blast
  from "2.IH"[OF st[symmetric] refl r] obtain b where
    b: "links2 = links1 @ b" "numbered md_token (length links1) b" by blast
  from numbered_chain[OF a b] l' show ?case by simp
qed

lemma bare_url_step_numbered:
  "bare_url_step mc start c cs links = (emitted, links1, start', rest) \<Longrightarrow>
     \<exists>new. links1 = links @ new \<and> numbered url_token (length links) new"
proof (cases "match_url (c # cs)")
  case None
  assume "bare_url_step mc start c cs links = (emitted, links1, start', rest)"
  with None show ?thesis by (simp add: bare_url_step_def)
next
  case (Some m)
  assume st: "bare_url_step mc start c cs links = (emitted, links1, start', rest)"
  obtain u r where m: "m = (u, r)" by (cases m)
  obtain repl l1 where rp: "replace_bare_url mc start u links = (repl, l1)"
    by (cases "replace_bare_url mc start u links")
  from st Some m rp have "links1 = l1" by (simp add: bare_url_step_def)
  with replace_bare_url_numbered[OF rp] show ?thesis by simp
qed

lemma sub_bare_urls_numbered:
  "sub_bare_urls mc start s links = (out, links') \<Longrightarrow>
     \<exists>new. links' = links @ new \<and> numbered url_token (length links) new"
proof (induction mc start s links arbitrary: out links' rule: sub_bare_urls.induct)
  case (1 mc start links)
  then show ?case by simp
next
  case (2 mc start c cs links)
  obtain emitted links1 start' rest where
    st: "bare_url_step mc start c cs links = (emitted, links1, start', rest)"
    by (cases "bare_url_step mc start c cs links")
  obtain out1 links2 where r: "sub_bare_urls mc start' rest links1 = (out1, links2)"
    by (cases "sub_bare_urls mc start' rest links1")
  from "2.prems" st r have l': "links' = links2" by simp
  from bare_url_step_numbered[OF st] obtain a where
    a: "links1 = links @ a" "numbered url_token (length links) a" by blast
  from "2.IH"[OF st[symmetric] refl refl r] obtain b where
    b: "links2 = links1 @ b" "numbered url_token (length links1) b" by blast
  from numbered_chain[OF a b] l' show ?case by simp
qed

lemma line_step_numbered:
  "line_step mc in_code line links = (line', in_code', links1) \<Longrightarrow>
     \<exists>new. links1 = links @ new \<and> numbered url_token (length links) new"
proof (cases "startswith (strip line) ''```'' \<or> in_code")
  case True
  assume "line_step mc in_code line links = (line', in_code', links1)"
  with True have "links1 = links" by (auto simp: line_step_def split: if_splits)
  then show ?thesis by simp
next
  case False
  assume st: "line_step mc in_code line links = (line', in_code', links1)"
  obtain l2 k2 where s: "sub_bare_urls mc 0 line links = (l2, k2)"
    by (cases "sub_bare_urls mc 0 line links")
  from st False s have "links1 = k2" by (simp add: line_step_def)
  with sub_bare_urls_numbered[OF s] show ?thesis by simp
qed

lemma url_lines_numbered:
  "url_lines mc in_code ls links = (out, links') \<Longrightarrow>
     \<exists>new. links' = links @ new \<and> numbered url_token (length links) new"
proof (induction ls arbitrary: in_code links out links')
  case Nil
  then show ?case by simp
next
  case (Cons line ls)
  obtain line' in_code' links1 where st: "line_step mc in_code line links = (line', in_code', links1)"
    by (cases "line_step mc in_code line links")
  obtain o1 links2 where r: "url_lines mc in_code' ls links1 = (o1, links2)"
    by (cases "url_lines mc in_code' ls links1")
  from Cons.prems st r have l': "links' = links2" by simp
  from line_step_numbered[OF st] obtain a where
    a: "links1 = links @ a" "numbered url_token (length links) a" by blast
  from Cons.IH[OF r] obtain b where
    b: "links2 = links1 @ b" "numbered url_token (length links1) b" by blast
  from numbered_chain[OF a b] l' show ?case by simp
qed

lemma preprocess_links_shape:
  assumes "preprocess_markdown_links mc = (pc, links)"
  shows "\<exists>md urls. links = md @ urls \<and> numbered md_token 0 md \<and> numbered url_token (length md) urls"
proof -
  obtain p0 l0 where s: "sub_md_links mc [] = (p0, l0)" by (cases "sub_md_links mc []")
  obtain ls l1 where u: "url_lines mc False (split_nl p0) l0 = (ls, l1)"
    by (cases "url_lines mc False (split_nl p0) l0")
  from assms s u have l: "links = l1" by (simp add: preprocess_markdown_links_def)
  from sub_md_links_numbered[OF s] have "numbered md_token 0 l0" by simp
  moreover from url_lines_numbered[OF u] obtain new where
    "l1 = l0 @ new" "numbered url_token (length l0) new" by blast
  ultimately show ?thesis using l by blast
qed

lemma digit_val_digit_char: "d < 10 \<Longrightarrow> digit_val (digit_char d) = d"
proof -
  assume "d < 10"
  then consider "d = 0" | "d = 1" | "d = 2" | "d = 3" | "d = 4" | "d = 5" | "d = 6" | "d = 7"
    | "d = 8" | "d = 9" by atomize_elim arith
  then show ?thesis
    by cases (simp_all add: digit_val_def digit_char_def)
qed

lemma str_nat_decode: "foldl (\<lambda>a c. 10 * a + digit_val c) 0 (str_nat n) = n"
proof (induction n rule: str_nat.induct)
  case (1 n)
  show ?case
  proof (cases "n < 10")
    case True
    then show ?thesis by (subst str_nat.simps) (simp add: digit_val_digit_char)
  next
    case False
    have "foldl (\<lambda>a c. 10 * a + digit_val c) 0 (str_nat n)
        = 10 * foldl (\<lambda>a c. 10 * a + digit_val c) 0 (str_nat (n div 10)) + digit_val (digit_char (n mod 10))"
      using False by (subst str_nat.simps) simp
    also have "\<dots> = 10 * (n div 10) + n mod 10"
      using "1.IH"[OF False] by (simp add: digit_val_digit_char)
    finally show ?thesis by simp
  qed
qed

lemma str_nat_inj: "str_nat a = str_nat b \<Longrightarrow> a = b"
  by (metis str_nat_decode)

lemma md_token_inj: "md_token a = md_token b \<Longrightarrow> a = b"
  by (simp add: md_token_def str_nat_inj)

lemma url_token_inj: "url_token a = url_token b \<Longrightarrow> a = b"
  by (simp add: url_token_def str_nat_inj)

lemma md_token_neq_url_token: "md_token a \<noteq> url_token b"
  by (simp add: md_token_def url_token_def)

lemma preprocess_placeholder_nth:
  assumes "preprocess_markdown_links mc = (pc, links)"
  shows "\<exists>m. \<forall>n<length links. placeholder (links ! n) = (if n < m then md_token n else url_token n)"
proof -
  from preprocess_links_shape[OF assms] obtain md urls where
    l: "links = md @ urls" and a: "numbered md_token 0 md" and b: "numbered url_token (length md) urls"
    by blast
  have "\<forall>n<length links. placeholder (links ! n) = (if n < length md then md_token n else url_token n)"
  proof (intro allI impI)
    fix n assume n: "n < length links"
    show "placeholder (links ! n) = (if n < length md then md_token n else url_token n)"
    proof (cases "n < length md")
      case True
      then show ?thesis using a l by (simp add: numbered_def nth_append)
    next
      case False
      then have "n - length md < length urls" using n l by simp
      then have "placeholder (urls ! (n - length md)) = url_token (length md + (n - length md))"
        using b by (simp add: numbered_def)
      then show ?thesis using False l by (simp add: nth_append)
    qed
  qed
  then show ?thesis by blast
qed

lemma preprocess_placeholders_distinct:
  assumes "preprocess_markdown_links mc = (pc, links)"
  shows "distinct (map placeholder links)"
proof -
  from preprocess_placeholder_nth[OF assms] obtain m where
    m: "\<forall>n<length links. placeholder (links ! n) = (if n < m then md_token n else url_token n)"
    by blast
  show ?thesis
    unfolding distinct_conv_nth
  proof (intro allI impI)
    fix i j assume "i < length (map placeholder links)" "j < length (map placeholder links)" "i \<noteq> j"
    then have i: "i < length links" and j: "j < length links" and ne: "i \<noteq> j" by simp_all
    have "placeholder (links ! i) \<noteq> placeholder (links ! j)"
      using m[rule_format, OF i] m[rule_format, OF j] ne
        md_token_inj url_token_inj md_token_neq_url_token[of i j] md_token_neq_url_token[of j i]
      by (auto split: if_splits)
    then show "map placeholder links ! i \<noteq> map placeholder links ! j"
      using i j by simp
  qed
qed

lemma dict_set_fresh: "k \<notin> fst ` set kvs \<Longrightarrow> dict_set kvs k v = kvs @ [(k, v)]"
  by (induction kvs) auto

lemma link_lookup_distinct_aux:
  "distinct (map placeholder (acc @ links)) \<Longrightarrow>
     foldl (\<lambda>d l. dict_set d (placeholder l) l) (map (\<lambda>l. (placeholder l, l)) acc) links
       = map (\<lambda>l. (placeholder l, l)) (acc @ links)"
proof (induction links arbitrary: acc)
  case Nil
  then show ?case by simp
next
  case (Cons l links)
  have fresh: "placeholder l \<notin> fst ` set (map (\<lambda>l. (placeholder l, l)) acc)"
    using Cons.prems by (auto simp: image_iff)
  have "distinct (map placeholder ((acc @ [l]) @ links))" using Cons.prems by simp
  from Cons.IH[OF this] show ?case
    by (simp add: dict_set_fresh[OF fresh])
qed

lemma link_lookup_distinct:
  "distinct (map placeholder links) \<Longrightarrow> link_lookup links = map (\<lambda>l. (placeholder l, l)) links"
  unfolding link_lookup_def using link_lookup_distinct_aux[of "[]" links] by simp

lemma find_first_index:
  assumes "i < length xs" "P (xs ! i)" "\<forall>k<i. \<not> P (xs ! k)"
  shows "find P xs = Some (xs ! i)"
  using assms
proof (induction xs arbitrary: i)
  case Nil
  then show ?case by simp
next
  case (Cons x xs)
  show ?case
  proof (cases i)
    case 0
    with Cons.prems show ?thesis by simp
  next
    case (Suc i')
    have "\<not> P x" using Cons.prems(3) Suc by auto
    moreover have "find P xs = Some (xs ! i')"
    proof (rule Cons.IH)
      show "i' < length xs" using Cons.prems(1) Suc by simp
      show "P (xs ! i')" using Cons.prems(2) Suc by simp
      show "\<forall>k<i'. \<not> P (xs ! k)"
      proof (intro allI impI)
        fix k assume "k < i'"
        then have "Suc k < i" using Suc by simp
        from Cons.prems(3)[rule_format, OF this] show "\<not> P (xs ! k)" by simp
      qed
    qed
    ultimately show ?thesis using Suc by simp
  qed
qed

lemma str_nat_1: "str_nat 1 = ''1''" and str_nat_10: "str_nat 10 = ''10''" and str_nat_0: "str_nat 0 = ''0''"
  by code_simp+



lemma in_code_at_0 [simp]: "in_code_at start lines 0 = start"
  by (simp add: in_code_at_def)














lemma token_strings:
  "md_token 0 = ''LINKPLACEHOLDER_0''" "md_token 1 = ''LINKPLACEHOLDER_1''"
  "md_token 10 = ''LINKPLACEHOLDER_10''" "url_token 0 = ''URLLINKPLACEHOLDER_0''"
  "url_token 1 = ''URLLINKPLACEHOLDER_1''" "url_token 10 = ''URLLINKPLACEHOLDER_10''"
  unfolding md_token_def url_token_def str_nat_0 str_nat_1 str_nat_10 by simp_all

lemma token_0_not_in_token_10:
  "\<not> sublist ''LINKPLACEHOLDER_0'' ''LINKPLACEHOLDER_10''"
  "\<not> sublist ''LINKPLACEHOLDER_0'' ''URLLINKPLACEHOLDER_10''"
  "\<not> sublist ''URLLINKPLACEHOLDER_0'' ''URLLINKPLACEHOLDER_10''"
  by code_simp+

lemma token_1_prefix_token_10:
  "prefix ''LINKPLACEHOLDER_1'' ''LINKPLACEHOLDER_10''"
  "\<not> prefix ''LINKPLACEHOLDER_1'' ''URLLINKPLACEHOLDER_10''"
  "prefix ''URLLINKPLACEHOLDER_1'' ''URLLINKPLACEHOLDER_10''"
  "sublist ''LINKPLACEHOLDER_1'' ''LINKPLACEHOLDER_10''"
  "sublist ''LINKPLACEHOLDER_1'' ''URLLINKPLACEHOLDER_10''"
  "sublist ''URLLINKPLACEHOLDER_1'' ''URLLINKPLACEHOLDER_10''"
  by code_simp+

lemma tokens_0_1_10:
  assumes p: "preprocess_markdown_links markdown_content = (processed_content, links)"
    and n: "10 < length links"
  shows "(placeholder (links ! 0) = ''LINKPLACEHOLDER_0'' \<and> placeholder (links ! 1) = ''LINKPLACEHOLDER_1'' \<and>
          placeholder (links ! 10) = ''LINKPLACEHOLDER_10'') \<or>
         (placeholder (links ! 0) = ''LINKPLACEHOLDER_0'' \<and> placeholder (links ! 1) = ''LINKPLACEHOLDER_1'' \<and>
          placeholder (links ! 10) = ''URLLINKPLACEHOLDER_10'') \<or>
         (placeholder (links ! 0) = ''LINKPLACEHOLDER_0'' \<and> placeholder (links ! 1) = ''URLLINKPLACEHOLDER_1'' \<and>
          placeholder (links ! 10) = ''URLLINKPLACEHOLDER_10'') \<or>
         (placeholder (links ! 0) = ''URLLINKPLACEHOLDER_0'' \<and> placeholder (links ! 1) = ''URLLINKPLACEHOLDER_1'' \<and>
          placeholder (links ! 10) = ''URLLINKPLACEHOLDER_10'')"
proof -
  from preprocess_placeholder_nth[OF p] obtain m where
    m: "\<forall>n<length links. placeholder (links ! n) = (if n < m then md_token n else url_token n)"
    by blast
  have "0 < length links" using n by (rule less_trans[rotated]) simp
  from m[rule_format, OF this]
  have p0: "placeholder (links ! 0) = (if 0 < m then md_token 0 else url_token 0)" .
  have p1: "placeholder (links ! 1) = (if 1 < m then md_token 1 else url_token 1)"
    using m[rule_format, of 1] n by simp
  have p10: "placeholder (links ! 10) = (if 10 < m then md_token 10 else url_token 10)"
    using m[rule_format, of 10] n by simp
  consider "10 < m" | "1 < m" "\<not> 10 < m" | "0 < m" "\<not> 1 < m" | "\<not> 0 < m"
    by atomize_elim arith
  then show ?thesis
  proof cases
    case 1
    then have "0 < m" "1 < m" by simp_all
    with 1 p0 p1 p10 show ?thesis by (simp only: if_True token_strings simp_thms)
  next
    case 2
    then have "0 < m" by simp
    with 2 p0 p1 p10 show ?thesis by (simp only: if_True if_False token_strings simp_thms)
  next
    case 3
    then have "\<not> 10 < m" by simp
    with 3 p0 p1 p10 show ?thesis by (simp only: if_True if_False token_strings simp_thms)
  next
    case 4
    then have "\<not> 1 < m" "\<not> 10 < m" by simp_all
    with 4 p0 p1 p10 show ?thesis by (simp only: if_True if_False token_strings simp_thms)
  qed
qed






subsection \<open>Auxiliary facts: the built-in converter\<close>

lemma block_type_JDict:
  "block_type (JDict kvs) = (case dict_get kvs ''type'' of Some (JStr t) \<Rightarrow> Some t | _ \<Rightarrow> None)"
  by (simp add: block_type_def)

lemma block_type_rich_text_block [simp]: "block_type (rich_text_block t r) = Some t"
  by (simp add: block_type_def rich_text_block_def)

lemma pad_cells_eq: "pad_cells w cells = cells @ replicate (w - length cells) pad_cell"
proof (induction w cells rule: pad_cells.induct)
  case (1 w cells)
  show ?case
  proof (cases "length cells < w")
    case True
    then have "w - length cells = Suc (w - Suc (length cells))" by simp
    with True "1.IH" show ?thesis
      by (subst pad_cells.simps) (simp add: replicate_app_Cons_same)
  next
    case False
    then show ?thesis by (subst pad_cells.simps) simp
  qed
qed

lemma normalized_cells:
  "trim_cells w (pad_cells w cells) = take w cells @ replicate (w - length cells) pad_cell"
  by (cases "length cells \<le> w") (auto simp: trim_cells_def pad_cells_eq)

lemma length_normalized_cells: "length (trim_cells w (pad_cells w cells)) = w"
  by (simp add: normalized_cells)

lemma table_row_eq:
  "table_row w row =
     JDict [(''type'', JStr ''table_row''),
            (''table_row'', JDict [(''cells'',
               JList (map JList (take w (source_cells row) @
                                 replicate (w - length (source_cells row)) pad_cell)))])]"
  by (simp add: table_row_def Let_def normalized_cells source_cells_def)

lemma paragraph_children_type:
  "b \<in> set (paragraph_children cs) \<Longrightarrow> block_type b = Some ''paragraph''"
  by (auto simp: paragraph_children_def split: if_splits)

lemma fallback_paragraph_type:
  "b \<in> set (fallback_paragraph el) \<Longrightarrow> block_type b = Some ''paragraph''"
  by (auto simp: fallback_paragraph_def Let_def split: if_splits)

lemma element_blocks_table:
  assumes "b \<in> set (element_blocks el)" and "block_type b = Some ''table''"
  shows "\<exists>attrs children. el = Tag ''table'' attrs children \<and> b \<in> set (table_blocks el)"
proof (cases el)
  case (NText s)
  with assms show ?thesis by simp
next
  case (Tag name attrs children)
  show ?thesis
  proof (cases "name = ''table''")
    case True
    with assms Tag show ?thesis by (simp add: Let_def)
  next
    case False
    have "block_type b \<noteq> Some ''table''"
    proof (cases "name \<in> {''h1'', ''h2'', ''h3'', ''p'', ''ul'', ''ol'', ''blockquote'', ''pre'', ''hr''}")
      case True
      with assms(1) Tag show ?thesis
        by (auto simp: Let_def block_type_JDict split: if_splits)
    next
      case nb: False
      show ?thesis
      proof (cases "name = ''img'' \<and> dict_get attrs ''src'' \<noteq> None")
        case True
        with assms(1) Tag nb False show ?thesis
          by (auto simp: Let_def block_type_JDict split: if_splits option.splits)
      next
        case ni: False
        show ?thesis
        proof (cases "name = ''div'' \<or> name = ''span''")
          case True
          with assms(1) Tag nb False ni have
            "b \<in> set (paragraph_children children) \<or>
             b = rich_text_block ''paragraph'' (process_rich_text_element el)"
            by (auto simp: Let_def split: if_splits)
          then show ?thesis using paragraph_children_type by auto
        next
          case nd: False
          with assms(1) Tag nb False ni have "b \<in> set (fallback_paragraph el)"
            by (auto simp: Let_def split: if_splits)
          then show ?thesis using fallback_paragraph_type by auto
        qed
      qed
    qed
    with assms(2) show ?thesis by simp
  qed
qed

lemma table_blocks_shape:
  assumes "b \<in> set (table_blocks element)"
  shows "\<exists>first_row more_rows.
           find_all [''tr''] element = first_row # more_rows \<and>
           0 < length (find_all [''th'', ''td''] first_row) \<and>
           b = JDict [(''object'', JStr ''block''), (''type'', JStr ''table''),
                 (''table'',
                    JDict [(''table_width'', JNum (int (length (find_all [''th'', ''td''] first_row)))),
                           (''has_column_header'', JBool (find_first [''th''] first_row \<noteq> None)),
                           (''has_row_header'', JBool False),
                           (''children'',
                              JList (map (table_row (length (find_all [''th'', ''td''] first_row)))
                                       (first_row # more_rows)))])]"
proof (cases "find_all [''tr''] element")
  case Nil
  with assms show ?thesis by (simp add: table_blocks_def)
next
  case (Cons first_row more_rows)
  show ?thesis
  proof (cases "length (find_all [''th'', ''td''] first_row) = 0")
    case True
    with assms Cons show ?thesis by (simp add: table_blocks_def)
  next
    case False
    with assms Cons show ?thesis by (simp add: table_blocks_def Let_def)
  qed
qed

lemma strip_nonempty: "strip s \<noteq> [] \<Longrightarrow> s \<noteq> []"
  by (auto simp: strip_def)





























lemma paragraph_converted:
  assumes "libs_available libs" and "parse_markdown libs s = [Tag ''p'' [] [NText s]]"
    and "strip s \<noteq> []"
  shows "convert_with_bs4 libs s = map block_json [RichText Paragraph [Run s None None]]"
proof -
  have "s \<noteq> []" using assms(3) by (rule strip_nonempty)
  then show ?thesis using assms by (simp add: convert_with_bs4_def Let_def)
qed

subsection \<open>Auxiliary facts: postprocessing on the blocks of the converter\<close>

lemma sublist_bracketed: "sublist (bracketed p) c \<Longrightarrow> sublist p c"
proof -
  assume "sublist (bracketed p) c"
  moreover have "sublist p (bracketed p)"
    unfolding bracketed_def by (rule sublist_appendI[of p "''[''" "'']''"])
  ultimately show ?thesis by (rule sublist_order.order_trans[rotated])
qed

lemma find_token_JStr:
  "find_token wrap lk (JStr c) = Inr (map_option snd (find (\<lambda>pl. sublist (wrap (fst pl)) c) lk))"
  by (induction lk) (auto split: bool.splits)

lemma dict_set_same: "dict_get kvs k = Some v \<Longrightarrow> dict_set kvs k v = kvs"
  by (induction kvs) (auto split: if_splits)

lemma resolve_text_first:
  assumes "dict_get run ''text'' = Some (JDict tk)"
    and "dict_get tk ''content'' = Some (JStr c)"
    and "find (\<lambda>pl. sublist (fst pl) c) lk = Some (p, l)"
  shows "resolve_text lk run = Inr (Some (set_link run tk l))"
  using assms by (simp add: resolve_text_def find_token_JStr)

lemma find_token_bare_none:
  "find (\<lambda>pl. sublist (fst pl) c) lk = None \<Longrightarrow> find_token (\<lambda>p. p) lk (JStr c) = Inr None"
  by (simp add: find_token_JStr)

lemma find_token_bracketed_none:
  assumes "find (\<lambda>pl. sublist (fst pl) c) lk = None"
  shows "find_token bracketed lk (JStr c) = Inr None"
proof -
  have "\<forall>pl\<in>set lk. \<not> sublist (fst pl) c" using assms by (auto simp: find_None_iff)
  then have "\<forall>pl\<in>set lk. \<not> sublist (bracketed (fst pl)) c" using sublist_bracketed by blast
  then have "find (\<lambda>pl. sublist (bracketed (fst pl)) c) lk = None" by (auto simp: find_None_iff)
  then show ?thesis by (simp add: find_token_JStr)
qed

lemma process_link_obj: "process_block lk (JDict [(''url'', JStr u)]) = Inr (JDict [(''url'', JStr u)])"
  by (simp add: table_walk_def resolve_text_def map_values_def)

lemma process_text_dict:
  "process_block lk (JDict ((''content'', JStr c) #
       (case h of None \<Rightarrow> [] | Some u \<Rightarrow> [(''link'', JDict [(''url'', JStr u)])])))
   = Inr (JDict ((''content'', JStr c) #
       (case h of None \<Rightarrow> [] | Some u \<Rightarrow> [(''link'', JDict [(''url'', JStr u)])])))"
  by (cases h) (simp_all add: table_walk_def resolve_text_def map_values_def process_link_obj)

lemma process_annotations:
  "process_block lk (JDict [(a, JBool True)]) = Inr (JDict [(a, JBool True)])"
  by (simp add: table_walk_def resolve_text_def map_values_def)

lemma process_run: "process_block lk (run_json r) = Inr (run_json (resolve_run lk r))"
proof (cases r)
  case (Run c h a)
  let ?tk = "(''content'', JStr c) # (case h of None \<Rightarrow> [] | Some u \<Rightarrow> [(''link'', JDict [(''url'', JStr u)])])"
  let ?kvs = "[(''type'', JStr ''text''), (''text'', JDict ?tk)] @
            (case a of None \<Rightarrow> [] | Some x \<Rightarrow> [(''annotations'', JDict [(x, JBool True)])])"
  have j: "run_json r = JDict ?kvs" using Run by (simp add: text_obj_def)
  have tw: "table_walk (process_block lk) ?kvs = Inr ?kvs" by (simp add: table_walk_def)
  have g1: "dict_get ?kvs ''text'' = Some (JDict ?tk)" by simp
  have g2: "dict_get ?tk ''content'' = Some (JStr c)" by simp
  show ?thesis
  proof (cases "find (\<lambda>pl. sublist (fst pl) c) lk")
    case None
    have rt: "resolve_text lk ?kvs = Inr None"
      using find_token_bare_none[OF None] find_token_bracketed_none[OF None]
      by (simp add: resolve_text_def)
    have mv: "map_values (process_block lk) ?kvs = Inr ?kvs"
      by (cases a) (simp_all add: map_values_def process_text_dict process_annotations
          del: process_block.simps)
    have "process_block lk (JDict ?kvs) = Inr (JDict ?kvs)"
      by (simp only: process_block.simps tw rt mv sum.case option.case)
    with j None Run show ?thesis by simp
  next
    case (Some pl)
    obtain p l where pl: "pl = (p, l)" by (cases pl)
    have rt: "resolve_text lk ?kvs = Inr (Some (set_link ?kvs ?tk l))"
      using g1 g2 Some[unfolded pl] by (rule resolve_text_first)
    have "process_block lk (JDict ?kvs) = Inr (JDict (set_link ?kvs ?tk l))"
      by (simp only: process_block.simps tw rt sum.case option.case)
    moreover have "JDict (set_link ?kvs ?tk l) = text_obj (link_text l) (Some (link_url l)) a"
      by (cases h; cases a) (simp_all add: set_link_def text_obj_def)
    ultimately show ?thesis using j Some pl Run by simp
  qed
qed

lemma map_err_map:
  "(\<And>x. x \<in> set xs \<Longrightarrow> f (g x) = Inr (g (h x))) \<Longrightarrow> map_err f (map g xs) = Inr (map g (map h xs))"
  by (induction xs) auto

lemma process_runs:
  "map_err (process_block lk) (map run_json runs) = Inr (map run_json (map (resolve_run lk) runs))"
  by (rule map_err_map) (rule process_run)

lemma process_list:
  "map_err (process_block lk) xs = Inr ys \<Longrightarrow> process_block lk (JList xs) = Inr (JList ys)"
  by simp

lemma process_dict_plain:
  assumes "table_walk (process_block lk) block = Inr block"
    and "resolve_text lk block = Inr None"
    and "map_values (process_block lk) block = Inr block'"
  shows "process_block lk (JDict block) = Inr (JDict block')"
  by (simp only: process_block.simps assms sum.case option.case)

lemma process_rich_text_field:
  assumes "map_err (process_block lk) js = Inr js'"
  shows "process_block lk (JDict [(''rich_text'', JList js)]) = Inr (JDict [(''rich_text'', JList js')])"
proof (rule process_dict_plain)
  show "table_walk (process_block lk) [(''rich_text'', JList js)] = Inr [(''rich_text'', JList js)]"
    by (simp add: table_walk_def)
  show "resolve_text lk [(''rich_text'', JList js)] = Inr None"
    by (simp add: resolve_text_def)
  show "map_values (process_block lk) [(''rich_text'', JList js)] = Inr [(''rich_text'', JList js')]"
    using process_list[OF assms] by (simp add: map_values_def del: process_block.simps)
qed

lemma process_rich_text_block:
  assumes "map_err (process_block lk) js = Inr js'"
  shows "process_block lk (rich_text_block (kind_name k) js) = Inr (rich_text_block (kind_name k) js')"
  unfolding rich_text_block_def
proof (rule process_dict_plain)
  let ?b = "[(''object'', JStr ''block''), (''type'', JStr (kind_name k)),
             (kind_name k, JDict [(''rich_text'', JList js)])]"
  show "table_walk (process_block lk) ?b = Inr ?b"
    by (cases k) (simp_all add: table_walk_def)
  show "resolve_text lk ?b = Inr None"
    by (cases k) (simp_all add: resolve_text_def)
  show "map_values (process_block lk) ?b =
      Inr [(''object'', JStr ''block''), (''type'', JStr (kind_name k)),
           (kind_name k, JDict [(''rich_text'', JList js')])]"
    using process_rich_text_field[OF assms]
    by (simp add: map_values_def del: process_block.simps)
qed

lemma process_code_block:
  "process_block lk (block_json (CodeBlock r language)) =
     Inr (block_json (CodeBlock (resolve_run lk r) language))"
proof -
  let ?inner = "\<lambda>r. [(''rich_text'', JList [run_json r]), (''language'', JStr language)]"
  let ?b = "\<lambda>r. [(''object'', JStr ''block''), (''type'', JStr ''code''), (''code'', JDict (?inner r))]"
  have i: "process_block lk (JDict (?inner r)) = Inr (JDict (?inner (resolve_run lk r)))"
  proof (rule process_dict_plain)
    show "table_walk (process_block lk) (?inner r) = Inr (?inner r)" by (simp add: table_walk_def)
    show "resolve_text lk (?inner r) = Inr None" by (simp add: resolve_text_def)
    have "process_block lk (JList [run_json r]) = Inr (JList [run_json (resolve_run lk r)])"
      by (rule process_list) (simp add: process_run del: process_block.simps)
    then show "map_values (process_block lk) (?inner r) = Inr (?inner (resolve_run lk r))"
      by (simp add: map_values_def del: process_block.simps)
  qed
  have "process_block lk (JDict (?b r)) = Inr (JDict (?b (resolve_run lk r)))"
  proof (rule process_dict_plain)
    show "table_walk (process_block lk) (?b r) = Inr (?b r)" by (simp add: table_walk_def)
    show "resolve_text lk (?b r) = Inr None" by (simp add: resolve_text_def)
    show "map_values (process_block lk) (?b r) = Inr (?b (resolve_run lk r))"
      using i by (simp add: map_values_def del: process_block.simps)
  qed
  then show ?thesis by simp
qed

lemma process_divider: "process_block lk (block_json Divider) = Inr (block_json Divider)"
  by (simp add: table_walk_def resolve_text_def map_values_def)

lemma process_image: "process_block lk (block_json (Image src)) = Inr (block_json (Image src))"
  by (simp add: table_walk_def resolve_text_def map_values_def)

text \<open>
  A table block: the explicit walk resolves the runs of every cell, and the loop over the
  values of the block then reaches the same runs again.
\<close>

definition table_fields :: "nat \<Rightarrow> bool \<Rightarrow> text_run list list list \<Rightarrow> (string \<times> json) list" where
  "table_fields w hh rows =
     [(''table_width'', JNum (int w)), (''has_column_header'', JBool hh),
      (''has_row_header'', JBool False), (''children'', JList (map row_json rows))]"

lemma block_json_Table:
  "block_json (Table w hh rows) =
     JDict [(''object'', JStr ''block''), (''type'', JStr ''table''),
            (''table'', JDict (table_fields w hh rows))]"
  by (simp add: table_fields_def)

lemma cell_walk_runs:
  "cell_walk (process_block lk) (JList (map run_json cell)) =
     Inr (JList (map run_json (map (resolve_run lk) cell)))"
  by (simp add: cell_walk_def process_runs)

lemma cells_walk_runs:
  "map_err (cell_walk (process_block lk)) (map (\<lambda>cell. JList (map run_json cell)) cells) =
     Inr (map (\<lambda>cell. JList (map run_json cell)) (map (map (resolve_run lk)) cells))"
  by (rule map_err_map) (rule cell_walk_runs)

lemma row_walk_runs:
  "row_walk (process_block lk) (row_json cells) = Inr (row_json (map (map (resolve_run lk)) cells))"
  by (simp add: row_walk_def row_json_def get_list_def cells_walk_runs)

lemma rows_walk_runs:
  "map_err (row_walk (process_block lk)) (map row_json rows) =
     Inr (map row_json (map (map (map (resolve_run lk))) rows))"
  by (rule map_err_map) (rule row_walk_runs)

lemma table_walk_runs:
  "table_walk (process_block lk)
      [(''object'', JStr ''block''), (''type'', JStr ''table''), (''table'', JDict (table_fields w hh rows))]
   = Inr [(''object'', JStr ''block''), (''type'', JStr ''table''),
          (''table'', JDict (table_fields w hh (map (map (map (resolve_run lk))) rows)))]"
  by (simp add: table_walk_def table_fields_def get_list_def rows_walk_runs)

lemma process_cell:
  "process_block lk (JList (map run_json cell)) = Inr (JList (map run_json (map (resolve_run lk) cell)))"
  by (rule process_list) (rule process_runs)

lemma process_cells:
  "process_block lk (JList (map (\<lambda>cell. JList (map run_json cell)) cells)) =
     Inr (JList (map (\<lambda>cell. JList (map run_json cell)) (map (map (resolve_run lk)) cells)))"
  by (rule process_list) (rule map_err_map, rule process_cell)

lemma process_row:
  "process_block lk (row_json cells) = Inr (row_json (map (map (resolve_run lk)) cells))"
proof -
  let ?cs = "\<lambda>cells. JList (map (\<lambda>cell. JList (map run_json cell)) cells)"
  have i: "process_block lk (JDict [(''cells'', ?cs cells)]) =
        Inr (JDict [(''cells'', ?cs (map (map (resolve_run lk)) cells))])"
  proof (rule process_dict_plain)
    show "table_walk (process_block lk) [(''cells'', ?cs cells)] = Inr [(''cells'', ?cs cells)]"
      by (simp add: table_walk_def)
    show "resolve_text lk [(''cells'', ?cs cells)] = Inr None" by (simp add: resolve_text_def)
    show "map_values (process_block lk) [(''cells'', ?cs cells)] =
        Inr [(''cells'', ?cs (map (map (resolve_run lk)) cells))]"
      using process_cells[of lk cells] by (simp add: map_values_def del: process_block.simps)
  qed
  show ?thesis
    unfolding row_json_def
  proof (rule process_dict_plain)
    let ?r = "[(''type'', JStr ''table_row''), (''table_row'', JDict [(''cells'', ?cs cells)])]"
    show "table_walk (process_block lk) ?r = Inr ?r" by (simp add: table_walk_def)
    show "resolve_text lk ?r = Inr None" by (simp add: resolve_text_def)
    show "map_values (process_block lk) ?r =
        Inr [(''type'', JStr ''table_row''),
             (''table_row'', JDict [(''cells'', ?cs (map (map (resolve_run lk)) cells))])]"
      using i by (simp add: map_values_def del: process_block.simps)
  qed
qed

lemma process_rows:
  "process_block lk (JList (map row_json rows)) =
     Inr (JList (map row_json (map (map (map (resolve_run lk))) rows)))"
  by (rule process_list) (rule map_err_map, rule process_row)

lemma process_table_fields:
  "process_block lk (JDict (table_fields w hh rows)) =
     Inr (JDict (table_fields w hh (map (map (map (resolve_run lk))) rows)))"
proof (rule process_dict_plain)
  show "table_walk (process_block lk) (table_fields w hh rows) = Inr (table_fields w hh rows)"
    by (simp add: table_walk_def table_fields_def)
  show "resolve_text lk (table_fields w hh rows) = Inr None"
    by (simp add: resolve_text_def table_fields_def)
  show "map_values (process_block lk) (table_fields w hh rows) =
      Inr (table_fields w hh (map (map (map (resolve_run lk))) rows))"
    using process_rows[of lk rows]
    by (simp add: map_values_def table_fields_def del: process_block.simps)
qed

lemma process_table:
  "process_block lk (block_json (Table w hh rows)) =
     Inr (block_json (resolve_block lk (Table w hh rows)))"
proof -
  let ?b = "\<lambda>rows. [(''object'', JStr ''block''), (''type'', JStr ''table''),
                    (''table'', JDict (table_fields w hh rows))]"
  let ?once = "map (map (map (resolve_run lk))) rows"
  let ?twice = "map (map (map (resolve_run lk))) ?once"
  have rt: "resolve_text lk (?b ?once) = Inr None" by (simp add: resolve_text_def)
  have mv: "map_values (process_block lk) (?b ?once) = Inr (?b ?twice)"
    using process_table_fields[of lk w hh ?once]
    by (simp add: map_values_def del: process_block.simps)
  have "process_block lk (JDict (?b rows)) = Inr (JDict (?b ?twice))"
    by (simp only: process_block.simps table_walk_runs rt mv sum.case option.case)
  moreover have "?twice = map (map (map (\<lambda>run. resolve_run lk (resolve_run lk run)))) rows"
    by (simp add: comp_def)
  ultimately show ?thesis
    by (simp only: block_json_Table resolve_block.simps)
qed

lemma process_typed_block:
  "process_block lk (block_json b) = Inr (block_json (resolve_block lk b))"
proof (cases b)
  case (RichText k runs)
  then show ?thesis
    using process_rich_text_block[OF process_runs, of lk k runs]
    by (simp del: process_block.simps)
next
  case (CodeBlock r language)
  then show ?thesis by (simp only: process_code_block resolve_block.simps)
next
  case Divider
  then show ?thesis by (simp only: process_divider resolve_block.simps)
next
  case (Image src)
  then show ?thesis by (simp only: process_image resolve_block.simps)
next
  case (Table w hh rows)
  then show ?thesis by (simp only: process_table)
qed

lemma process_typed_blocks:
  "process_block lk (JList (map block_json blocks)) =
     Inr (JList (map block_json (map (resolve_block lk) blocks)))"
  by (rule process_list) (rule map_err_map, rule process_typed_block)

lemma postprocess_typed_blocks:
  "postprocess_notion_blocks (JList (map block_json blocks)) extracted_links =
     Inr (JList (map block_json (map (resolve_block (link_lookup extracted_links)) blocks)))"
proof (cases "extracted_links = []")
  case True
  have "resolve_run [] r = r" for r by (cases r) simp
  then have "resolve_block [] b = b" for b
    by (cases b) (simp_all add: map_idI)
  with True show ?thesis
    by (simp add: postprocess_notion_blocks_def link_lookup_def map_idI)
next
  case False
  then show ?thesis
    by (simp only: postprocess_notion_blocks_def if_False process_typed_blocks)
qed

lemma fix_markdown_links_typed:
  assumes "preprocess_markdown_links markdown_content = (processed_content, extracted_links)"
    and "converter_func processed_content = JList (map block_json blocks)"
  shows "fix_markdown_links markdown_content converter_func =
           Inr (JList (map block_json (map (resolve_block (link_lookup extracted_links)) blocks)))"
proof (cases "extracted_links = []")
  case True
  have "resolve_run [] r = r" for r by (cases r) simp
  then have "resolve_block [] b = b" for b by (cases b) (simp_all add: map_idI)
  with True assms show ?thesis
    by (simp add: fix_markdown_links_def link_lookup_def map_idI)
next
  case False
  with assms postprocess_typed_blocks[of blocks extracted_links] show ?thesis
    by (simp add: fix_markdown_links_def)
qed

lemma resolve_run_index:
  assumes d: "distinct (map placeholder links)"
    and i: "i < length links" "sublist (placeholder (links ! i)) content"
      "\<forall>k<i. \<not> sublist (placeholder (links ! k)) content"
  shows "resolve_run (link_lookup links) (Run content href annotation) =
           Run (link_text (links ! i)) (Some (link_url (links ! i))) annotation"
proof -
  let ?lk = "map (\<lambda>l. (placeholder l, l)) links"
  have lk: "link_lookup links = ?lk" using d by (rule link_lookup_distinct)
  have "find (\<lambda>pl. sublist (fst pl) content) ?lk = Some (?lk ! i)"
  proof (rule find_first_index)
    show "i < length ?lk" using i(1) by simp
    show "sublist (fst (?lk ! i)) content" using i(1,2) by simp
    show "\<forall>k<i. \<not> sublist (fst (?lk ! k)) content"
    proof (intro allI impI)
      fix k assume k: "k < i"
      then have "k < length links" using i(1) by simp
      then show "\<not> sublist (fst (?lk ! k)) content" using i(3) k by simp
    qed
  qed
  then have "find (\<lambda>pl. sublist (fst pl) content) ?lk = Some (placeholder (links ! i), links ! i)"
    using i(1) by simp
  then show ?thesis by (simp add: lk)
qed

lemma least_token_index:
  assumes "sublist (placeholder (links ! i)) content"
  shows "\<exists>k\<le>i. sublist (placeholder (links ! k)) content \<and>
           (\<forall>m<k. \<not> sublist (placeholder (links ! m)) content)"
proof -
  let ?P = "\<lambda>k. sublist (placeholder (links ! k)) content"
  have "?P (LEAST k. ?P k)" using assms by (rule LeastI)
  moreover have "(LEAST k. ?P k) \<le> i" using assms by (rule Least_le)
  moreover have "\<forall>m<(LEAST k. ?P k). \<not> ?P m" using not_less_Least by blast
  ultimately show ?thesis by blast
qed






subsection \<open>Auxiliary facts: postprocessing keeps what holds no token\<close>

text \<open>
  On any value: if \<^verbatim>\<open>process_block\<close> returns, a value in which no token occurs is returned
  as it was. The proof follows the recursion of \<^verbatim>\<open>process_block\<close>.
\<close>

lemma map_err_Inr_length: "map_err f xs = Inr ys \<Longrightarrow> length ys = length xs"
  by (induction xs arbitrary: ys) (auto split: sum.splits)

lemma map_err_Inr_nth:
  "map_err f xs = Inr ys \<Longrightarrow> i < length xs \<Longrightarrow> f (xs ! i) = Inr (ys ! i)"
proof (induction xs arbitrary: ys i)
  case Nil
  then show ?case by simp
next
  case (Cons x xs)
  from Cons.prems(1) obtain y ys' where
    y: "f x = Inr y" and ys': "map_err f xs = Inr ys'" and ys: "ys = y # ys'"
    by (auto split: sum.splits)
  show ?case
  proof (cases i)
    case 0
    with y ys show ?thesis by simp
  next
    case (Suc i')
    with Cons.prems(2) have "i' < length xs" by simp
    from Cons.IH[OF ys' this] show ?thesis using Suc ys by simp
  qed
qed

lemma map_err_keeps:
  assumes "\<And>x y. x \<in> set xs \<Longrightarrow> f x = Inr y \<Longrightarrow> y = x" and "map_err f xs = Inr ys"
  shows "ys = xs"
proof (rule nth_equalityI)
  show "length ys = length xs" using assms(2) by (rule map_err_Inr_length)
next
  fix i assume "i < length ys"
  then have i: "i < length xs" using map_err_Inr_length[OF assms(2)] by simp
  from map_err_Inr_nth[OF assms(2) i] assms(1)[of "xs ! i" "ys ! i"] i
  show "ys ! i = xs ! i" by simp
qed

lemma find_token_keeps:
  "\<not> list_ex (\<lambda>pl. py_in (wrap (fst pl)) content = Inr True) lk \<Longrightarrow>
     find_token wrap lk content = Inr r \<Longrightarrow> r = None"
  by (induction lk) (auto split: sum.splits bool.splits)

lemma resolve_text_keeps:
  assumes "\<not> has_token lk kvs" and "resolve_text lk kvs = Inr r"
  shows "r = None"
proof (cases "dict_get kvs ''text''")
  case None
  with assms(2) show ?thesis by (simp add: resolve_text_def)
next
  case (Some t)
  show ?thesis
  proof (cases t)
    case (JDict tk)
    show ?thesis
    proof (cases "dict_get tk ''content''")
      case None
      with Some JDict assms(2) show ?thesis by (simp add: resolve_text_def)
    next
      case c: (Some content)
      from assms(1) Some JDict c
      have n: "\<not> list_ex (\<lambda>pl. py_in (fst pl) content = Inr True \<or>
                             py_in (bracketed (fst pl)) content = Inr True) lk"
        by (simp add: has_token_def)
      have n1: "\<not> list_ex (\<lambda>pl. py_in ((\<lambda>p. p) (fst pl)) content = Inr True) lk"
        using n by (auto simp: list_ex_iff)
      have n2: "\<not> list_ex (\<lambda>pl. py_in (bracketed (fst pl)) content = Inr True) lk"
        using n by (auto simp: list_ex_iff)
      from assms(2) Some JDict c
      have r: "(case find_token (\<lambda>p. p) lk content of
                  Inl e \<Rightarrow> Inl e
                | Inr (Some link_data) \<Rightarrow> Inr (Some (set_link kvs tk link_data))
                | Inr None \<Rightarrow>
                    (case find_token bracketed lk content of
                       Inl e \<Rightarrow> Inl e
                     | Inr (Some link_data) \<Rightarrow> Inr (Some (set_link kvs tk link_data))
                     | Inr None \<Rightarrow> Inr None)) = Inr r"
        by (simp add: resolve_text_def)
      show ?thesis
      proof (cases "find_token (\<lambda>p. p) lk content")
        case (Inl e)
        with r show ?thesis by simp
      next
        case (Inr a)
        from find_token_keeps[OF n1 Inr] have a: "a = None" .
        show ?thesis
        proof (cases "find_token bracketed lk content")
          case (Inl e)
          with r Inr a show ?thesis by simp
        next
          case b: (Inr b)
          from find_token_keeps[OF n2 b] have "b = None" .
          with r Inr a b show ?thesis by simp
        qed
      qed
    qed
  qed (use Some assms(2) in \<open>simp_all add: resolve_text_def\<close>)
qed

lemma cell_walk_keeps:
  assumes "\<And>x y. x \<in> set (cell_items c) \<Longrightarrow> f x = Inr y \<Longrightarrow> y = x" and "cell_walk f c = Inr c'"
  shows "c' = c"
proof (cases c)
  case (JList items)
  from assms(2) JList obtain items' where
    m: "map_err f items = Inr items'" and c': "c' = JList items'"
    by (auto simp: cell_walk_def split: sum.splits)
  have "items' = items"
    by (rule map_err_keeps[OF _ m]) (use assms(1) JList in \<open>simp add: cell_items_def\<close>)
  with c' JList show ?thesis by simp
qed (use assms(2) in \<open>simp_all add: cell_walk_def\<close>)

lemma row_walk_keeps:
  assumes "\<And>x y. x \<in> set (row_items r) \<Longrightarrow> f x = Inr y \<Longrightarrow> y = x" and "row_walk f r = Inr r'"
  shows "r' = r"
proof (cases r)
  case (JDict rk)
  show ?thesis
  proof (cases "dict_get rk ''table_row''")
    case None
    with JDict assms(2) show ?thesis by (simp add: row_walk_def)
  next
    case (Some tr)
    show ?thesis
    proof (cases "get_list tr ''cells''")
      case (Inl e)
      with JDict Some assms(2) show ?thesis by (simp add: row_walk_def)
    next
      case (Inr res)
      show ?thesis
      proof (cases res)
        case None
        with JDict Some Inr assms(2) show ?thesis by (simp add: row_walk_def)
      next
        case cs: (Some cells)
        from get_list_SomeD[of tr "''cells''" cells] Inr cs obtain tk where
          tk: "tr = JDict tk" "dict_get tk ''cells'' = Some (JList cells)" by blast
        from assms(2) JDict Some Inr cs obtain cells' where
          m: "map_err (cell_walk f) cells = Inr cells'"
          and r': "r' = JDict (dict_set rk ''table_row'' (set_key tr ''cells'' (JList cells')))"
          by (auto simp: row_walk_def split: sum.splits)
        have "cells' = cells"
        proof (rule map_err_keeps[OF _ m])
          fix c c' assume c: "c \<in> set cells" and w: "cell_walk f c = Inr c'"
          show "c' = c"
          proof (rule cell_walk_keeps[OF _ w])
            fix x y assume "x \<in> set (cell_items c)" and fx: "f x = Inr y"
            with c have "x \<in> set (row_items r)"
              using JDict Some Inr cs by (auto simp: row_items_def)
            then show "y = x" using fx by (rule assms(1))
          qed
        qed
        with r' tk Some JDict show ?thesis by (simp add: dict_set_same)
      qed
    qed
  qed
qed (use assms(2) in \<open>simp_all add: row_walk_def\<close>)

lemma table_walk_keeps:
  assumes "\<And>x y. x \<in> set (table_items block) \<Longrightarrow> f x = Inr y \<Longrightarrow> y = x"
    and "table_walk f block = Inr block'"
  shows "block' = block"
proof (cases "dict_get block ''type'' = Some (JStr ''table'') \<and> dict_get block ''table'' \<noteq> None")
  case False
  then have "table_walk f block = Inr block" by (simp add: table_walk_def)
  with assms(2) show ?thesis by simp
next
  case True
  then obtain tv where tv: "dict_get block ''table'' = Some tv" by auto
  show ?thesis
  proof (cases "get_list tv ''children''")
    case (Inl e)
    with True tv assms(2) show ?thesis by (simp add: table_walk_def)
  next
    case (Inr res)
    show ?thesis
    proof (cases res)
      case None
      with True tv Inr assms(2) show ?thesis by (simp add: table_walk_def)
    next
      case (Some rows)
      from get_list_SomeD[of tv "''children''" rows] Inr Some obtain tk where
        tk: "tv = JDict tk" "dict_get tk ''children'' = Some (JList rows)" by blast
      have ti: "table_items block = concat (map row_items rows)"
        using True tv Inr Some by (simp add: table_items_def)
      from assms(2) True tv Inr Some obtain rows' where
        m: "map_err (row_walk f) rows = Inr rows'"
        and b': "block' = dict_set block ''table'' (set_key tv ''children'' (JList rows'))"
        by (auto simp: table_walk_def split: sum.splits)
      have "rows' = rows"
      proof (rule map_err_keeps[OF _ m])
        fix r r' assume r: "r \<in> set rows" and w: "row_walk f r = Inr r'"
        show "r' = r"
        proof (rule row_walk_keeps[OF _ w])
          fix x y assume "x \<in> set (row_items r)" and fx: "f x = Inr y"
          with r have "x \<in> set (table_items block)" unfolding ti by auto
          then show "y = x" using fx by (rule assms(1))
        qed
      qed
      with b' tk tv show ?thesis by (simp add: dict_set_same)
    qed
  qed
qed

lemma map_values_keeps:
  assumes "\<And>k v y. (k, v) \<in> set kvs \<Longrightarrow> is_container v \<Longrightarrow> f v = Inr y \<Longrightarrow> y = v"
    and "map_values f kvs = Inr kvs'"
  shows "kvs' = kvs"
proof (rule map_err_keeps[OF _ assms(2)[unfolded map_values_def]])
  fix x y
  assume x: "x \<in> set kvs"
    and e: "(case x of (key, v) \<Rightarrow>
               if is_container v then (case f v of Inl e \<Rightarrow> Inl e | Inr v' \<Rightarrow> Inr (key, v'))
               else Inr (key, v)) = Inr y"
  obtain k v where kv: "x = (k, v)" by (cases x)
  show "y = x"
  proof (cases "is_container v")
    case False
    with e kv show ?thesis by simp
  next
    case True
    with e kv obtain v' where fv: "f v = Inr v'" and y: "y = (k, v')"
      by (auto split: sum.splits)
    from assms(1)[OF x[unfolded kv] True fv] y kv show ?thesis by simp
  qed
qed

lemma not_mentions_value:
  "\<not> mentions lk (JDict kvs) \<Longrightarrow> (k, v) \<in> set kvs \<Longrightarrow> \<not> mentions lk v"
  by (auto simp: list_ex_iff)

lemma not_mentions_get_list:
  assumes "get_list x k = Inr (Some xs)" "\<not> mentions lk x" "y \<in> set xs"
  shows "\<not> mentions lk y"
proof -
  from get_list_SomeD[OF assms(1)] obtain kvs where
    x: "x = JDict kvs" and g: "dict_get kvs k = Some (JList xs)" by blast
  have "\<not> mentions lk (JList xs)"
    using not_mentions_value[OF assms(2)[unfolded x] dict_get_in_set[OF g]] .
  with assms(3) show ?thesis by (simp add: list_ex_iff)
qed

lemma not_mentions_table_items:
  assumes "\<not> mentions lk (JDict block)" "x \<in> set (table_items block)"
  shows "\<not> mentions lk x"
proof -
  from table_itemsD[OF assms(2)] obtain tv rows r where
    tv: "dict_get block ''table'' = Some tv"
    and rows: "get_list tv ''children'' = Inr (Some rows)"
    and r: "r \<in> set rows" and xr: "x \<in> set (row_items r)" by blast
  from row_itemsD[OF xr] obtain rk tr cells c where
    rk: "r = JDict rk" and tr: "dict_get rk ''table_row'' = Some tr"
    and cells: "get_list tr ''cells'' = Inr (Some cells)"
    and c: "c \<in> set cells" and xc: "x \<in> set (cell_items c)" by blast
  have "\<not> mentions lk tv" using not_mentions_value[OF assms(1) dict_get_in_set[OF tv]] .
  then have "\<not> mentions lk r" using not_mentions_get_list[OF rows _ r] by blast
  then have "\<not> mentions lk tr" unfolding rk using not_mentions_value dict_get_in_set[OF tr] by blast
  then have "\<not> mentions lk c" using not_mentions_get_list[OF cells _ c] by blast
  with xc show ?thesis by (cases c) (simp_all add: cell_items_def list_ex_iff)
qed

lemma process_block_keeps:
  "\<not> mentions lk j \<Longrightarrow> process_block lk j = Inr j' \<Longrightarrow> j' = j"
proof (induction lk j arbitrary: j' rule: process_block.induct)
  case (1 lk block)
  from "1.prems"(2) obtain block1 where tw: "table_walk (process_block lk) block = Inr block1"
    by (auto split: sum.splits)
  have b1: "block1 = block"
  proof (rule table_walk_keeps[OF _ tw])
    fix x y assume x: "x \<in> set (table_items block)" and p: "process_block lk x = Inr y"
    have "\<not> mentions lk x" using not_mentions_table_items[OF "1.prems"(1) x] .
    from "1.IH"(1)[OF x this p] show "y = x" .
  qed
  from "1.prems"(2) tw obtain r where rt: "resolve_text lk block1 = Inr r"
    by (auto split: sum.splits)
  have "\<not> has_token lk block" using "1.prems"(1) by simp
  with rt b1 have r: "r = None" using resolve_text_keeps by blast
  from "1.prems"(2) tw rt r obtain block3 where
    mv: "map_values (process_block lk) block1 = Inr block3" and j': "j' = JDict block3"
    by (auto split: sum.splits)
  have "block3 = block1"
  proof (rule map_values_keeps[OF _ mv])
    fix k v y assume kv: "(k, v) \<in> set block1" and cv: "is_container v"
      and p: "process_block lk v = Inr y"
    have "\<not> mentions lk v" using not_mentions_value[OF "1.prems"(1)] kv b1 by blast
    from "1.IH"(2)[OF tw rt[unfolded r] refl kv cv this p] show "y = v" .
  qed
  with j' b1 show ?case by simp
next
  case (2 lk xs)
  from "2.prems"(2) obtain ys where m: "map_err (process_block lk) xs = Inr ys" and j': "j' = JList ys"
    by (auto split: sum.splits)
  have "ys = xs"
  proof (rule map_err_keeps[OF _ m])
    fix x y assume x: "x \<in> set xs" and p: "process_block lk x = Inr y"
    have "\<not> mentions lk x" using "2.prems"(1) x by (auto simp: list_ex_iff)
    from "2.IH"[OF x this p] show "y = x" .
  qed
  with j' show ?case by simp
qed simp_all

lemma postprocess_keeps_blocks:
  assumes "postprocess_notion_blocks (JList blocks) extracted_links = Inr result"
  shows "\<exists>ys. result = JList ys \<and> length ys = length blocks \<and>
           (\<forall>i<length blocks. \<not> mentions (link_lookup extracted_links) (blocks ! i) \<longrightarrow>
                ys ! i = blocks ! i)"
proof (cases "extracted_links = []")
  case True
  with assms show ?thesis by (auto simp: postprocess_notion_blocks_def)
next
  case False
  let ?lk = "link_lookup extracted_links"
  from assms False obtain ys where
    m: "map_err (process_block ?lk) blocks = Inr ys" and r: "result = JList ys"
    by (auto simp: postprocess_notion_blocks_def split: sum.splits)
  have "ys ! i = blocks ! i" if i: "i < length blocks" and n: "\<not> mentions ?lk (blocks ! i)" for i
    using process_block_keeps[OF n map_err_Inr_nth[OF m i]] .
  with r map_err_Inr_length[OF m] show ?thesis by blast
qed

subsection \<open>Auxiliary facts: the examples\<close>

lemma example_preprocessed:
  "preprocess_markdown_links example_markdown = (example_masked, example_links)"
proof -
  have a: "sub_md_links example_markdown [] =
      (''[LINKPLACEHOLDER_0] [LINKPLACEHOLDER_1] http://c2 http://c3 http://c4 http://c5 http://c6 http://c7 http://c8 http://c9 http://c10 http://c11'',
       take 2 example_links)"
    unfolding example_markdown_def example_links_def by code_simp
  have b: "split_nl ''[LINKPLACEHOLDER_0] [LINKPLACEHOLDER_1] http://c2 http://c3 http://c4 http://c5 http://c6 http://c7 http://c8 http://c9 http://c10 http://c11''
     = [''[LINKPLACEHOLDER_0] [LINKPLACEHOLDER_1] http://c2 http://c3 http://c4 http://c5 http://c6 http://c7 http://c8 http://c9 http://c10 http://c11'']"
    by code_simp
  have c: "url_lines example_markdown False
      [''[LINKPLACEHOLDER_0] [LINKPLACEHOLDER_1] http://c2 http://c3 http://c4 http://c5 http://c6 http://c7 http://c8 http://c9 http://c10 http://c11'']
      (take 2 example_links) = ([example_masked], example_links)"
    unfolding example_markdown_def example_links_def example_masked_def by code_simp
  show ?thesis
    unfolding preprocess_markdown_links_def a b c prod.case by simp
qed



lemma example_library_paragraph:
  "libs_available example_library"
  "parse_markdown example_library ''[LINKPLACEHOLDER_0]'' = [Tag ''p'' [] [NText ''[LINKPLACEHOLDER_0]'']]"
  "parse_markdown example_library ''URLLINKPLACEHOLDER_0'' = [Tag ''p'' [] [NText ''URLLINKPLACEHOLDER_0'']]"
  unfolding example_library_def example_table_text_def empty_pre_text_def fence_masked_def
    twice_masked_def
  by simp_all

lemma example_library_table:
  "convert_with_bs4 example_library example_table_text = [JDict example_table_block]"
  unfolding example_library_def example_table_text_def example_table_dom_def example_table_block_def
  by code_simp






subsection \<open>The round trip of a link\<close>

text \<open>
  C1. The pipeline is \<^verbatim>\<open>fix_markdown_links\<close> with the built-in converter as
  \<^verbatim>\<open>converter_func\<close>. Preprocessing masks \<^verbatim>\<open>[Example](https://example.com)\<close> as
  \<^verbatim>\<open>[LINKPLACEHOLDER_0]\<close> and \<^verbatim>\<open>https://example.com\<close> as \<^verbatim>\<open>URLLINKPLACEHOLDER_0\<close>. When the
  libraries are present and render each masked text as one paragraph that holds it, the
  result for the first input is one paragraph whose only run has the content \<^verbatim>\<open>Example\<close>
  and the link \<^verbatim>\<open>https://example.com\<close>, and the result for the second input is one paragraph
  whose only run has \<^verbatim>\<open>https://example.com\<close> as its content and as its link.
\<close>

theorem link_text_round_trip:
  assumes "libs_available libs"
    and "parse_markdown libs ''[LINKPLACEHOLDER_0]'' = [Tag ''p'' [] [NText ''[LINKPLACEHOLDER_0]'']]"
    and "parse_markdown libs ''URLLINKPLACEHOLDER_0'' = [Tag ''p'' [] [NText ''URLLINKPLACEHOLDER_0'']]"
  shows "fix_markdown_links ''[Example](https://example.com)'' (builtin_converter libs) =
           Inr (JList [JDict [(''object'', JStr ''block''), (''type'', JStr ''paragraph''),
                  (''paragraph'', JDict [(''rich_text'',
                     JList [JDict [(''type'', JStr ''text''),
                                   (''text'', JDict [(''content'', JStr ''Example''),
                                                     (''link'', JDict [(''url'', JStr ''https://example.com'')])])]])])]]) \<and>
         fix_markdown_links ''https://example.com'' (builtin_converter libs) =
           Inr (JList [JDict [(''object'', JStr ''block''), (''type'', JStr ''paragraph''),
                  (''paragraph'', JDict [(''rich_text'',
                     JList [JDict [(''type'', JStr ''text''),
                                   (''text'', JDict [(''content'', JStr ''https://example.com''),
                                                     (''link'', JDict [(''url'', JStr ''https://example.com'')])])]])])]])"
proof
  have p: "preprocess_markdown_links ''[Example](https://example.com)'' =
      (''[LINKPLACEHOLDER_0]'',
       [\<lparr>placeholder = ''LINKPLACEHOLDER_0'', link_text = ''Example'', link_url = ''https://example.com''\<rparr>])"
    by code_simp
  have s: "strip ''[LINKPLACEHOLDER_0]'' \<noteq> []" by code_simp
  have c: "builtin_converter libs ''[LINKPLACEHOLDER_0]'' =
      JList (map block_json [RichText Paragraph [Run ''[LINKPLACEHOLDER_0]'' None None]])"
    unfolding builtin_converter_def paragraph_converted[OF assms(1,2) s] ..
  have r: "map (resolve_block (link_lookup
        [\<lparr>placeholder = ''LINKPLACEHOLDER_0'', link_text = ''Example'', link_url = ''https://example.com''\<rparr>]))
        [RichText Paragraph [Run ''[LINKPLACEHOLDER_0]'' None None]]
      = [RichText Paragraph [Run ''Example'' (Some ''https://example.com'') None]]"
    by code_simp
  show "fix_markdown_links ''[Example](https://example.com)'' (builtin_converter libs) =
           Inr (JList [JDict [(''object'', JStr ''block''), (''type'', JStr ''paragraph''),
                  (''paragraph'', JDict [(''rich_text'',
                     JList [JDict [(''type'', JStr ''text''),
                                   (''text'', JDict [(''content'', JStr ''Example''),
                                                     (''link'', JDict [(''url'', JStr ''https://example.com'')])])]])])]])"
    unfolding fix_markdown_links_typed[where converter_func = "builtin_converter libs", OF p c] r
    by (simp add: rich_text_block_def text_obj_def)
next
  have p: "preprocess_markdown_links ''https://example.com'' =
      (''URLLINKPLACEHOLDER_0'',
       [\<lparr>placeholder = ''URLLINKPLACEHOLDER_0'', link_text = ''https://example.com'',
          link_url = ''https://example.com''\<rparr>])"
    by code_simp
  have s: "strip ''URLLINKPLACEHOLDER_0'' \<noteq> []" by code_simp
  have c: "builtin_converter libs ''URLLINKPLACEHOLDER_0'' =
      JList (map block_json [RichText Paragraph [Run ''URLLINKPLACEHOLDER_0'' None None]])"
    unfolding builtin_converter_def paragraph_converted[OF assms(1,3) s] ..
  have r: "map (resolve_block (link_lookup
        [\<lparr>placeholder = ''URLLINKPLACEHOLDER_0'', link_text = ''https://example.com'',
           link_url = ''https://example.com''\<rparr>]))
        [RichText Paragraph [Run ''URLLINKPLACEHOLDER_0'' None None]]
      = [RichText Paragraph [Run ''https://example.com'' (Some ''https://example.com'') None]]"
    by code_simp
  show "fix_markdown_links ''https://example.com'' (builtin_converter libs) =
           Inr (JList [JDict [(''object'', JStr ''block''), (''type'', JStr ''paragraph''),
                  (''paragraph'', JDict [(''rich_text'',
                     JList [JDict [(''type'', JStr ''text''),
                                   (''text'', JDict [(''content'', JStr ''https://example.com''),
                                                     (''link'', JDict [(''url'', JStr ''https://example.com'')])])]])])]])"
    unfolding fix_markdown_links_typed[where converter_func = "builtin_converter libs", OF p c] r
    by (simp add: rich_text_block_def text_obj_def)
qed

text \<open>The library of the examples meets the hypotheses.\<close>

theorem link_text_round_trip_witness:
  "libs_available example_library \<and>
   parse_markdown example_library ''[LINKPLACEHOLDER_0]'' = [Tag ''p'' [] [NText ''[LINKPLACEHOLDER_0]'']] \<and>
   parse_markdown example_library ''URLLINKPLACEHOLDER_0'' = [Tag ''p'' [] [NText ''URLLINKPLACEHOLDER_0'']] \<and>
   fix_markdown_links ''[Example](https://example.com)'' (builtin_converter example_library) =
           Inr (JList [JDict [(''object'', JStr ''block''), (''type'', JStr ''paragraph''),
                  (''paragraph'', JDict [(''rich_text'',
                     JList [JDict [(''type'', JStr ''text''),
                                   (''text'', JDict [(''content'', JStr ''Example''),
                                                     (''link'', JDict [(''url'', JStr ''https://example.com'')])])]])])]]) \<and>
   fix_markdown_links ''https://example.com'' (builtin_converter example_library) =
           Inr (JList [JDict [(''object'', JStr ''block''), (''type'', JStr ''paragraph''),
                  (''paragraph'', JDict [(''rich_text'',
                     JList [JDict [(''type'', JStr ''text''),
                                   (''text'', JDict [(''content'', JStr ''https://example.com''),
                                                     (''link'', JDict [(''url'', JStr ''https://example.com'')])])]])])]])"
  using link_text_round_trip[OF example_library_paragraph] example_library_paragraph
  by (simp only: simp_thms)

subsection \<open>The shape of a table\<close>

text \<open>
  C3. Every block of type \<^verbatim>\<open>table\<close> that the built-in converter returns comes from an
  element with at least one row; its width is the number of cells of the first row and is
  positive; every emitted row holds, in order, the first \<^verbatim>\<open>table_width\<close> cells of the source
  row followed by one padding cell (a single run of empty content) for each cell that is
  missing, so it has exactly \<^verbatim>\<open>table_width\<close> cells. A table whose first row has no cell
  gives no block.
\<close>

theorem table_rows_have_table_width:
  "(\<forall>block. JDict block \<in> set (convert_with_bs4 libs md_content) \<and>
       dict_get block ''type'' = Some (JStr ''table'') \<longrightarrow>
       (\<exists>element first_row more_rows table_width.
           element \<in> set (parse_markdown libs md_content) \<and>
           find_all [''tr''] element = first_row # more_rows \<and>
           table_width = length (find_all [''th'', ''td''] first_row) \<and>
           0 < table_width \<and>
           dict_get block ''table'' =
             Some (JDict [(''table_width'', JNum (int table_width)),
                          (''has_column_header'', JBool (find_first [''th''] first_row \<noteq> None)),
                          (''has_row_header'', JBool False),
                          (''children'',
                             JList (map (\<lambda>row. JDict [(''type'', JStr ''table_row''),
                                       (''table_row'', JDict [(''cells'',
                                          JList (map JList
                                            (take table_width (source_cells row) @
                                             replicate (table_width - length (source_cells row)) pad_cell)))])])
                                      (first_row # more_rows)))]) \<and>
           (\<forall>row\<in>set (first_row # more_rows).
              length (take table_width (source_cells row) @
                      replicate (table_width - length (source_cells row)) pad_cell) = table_width))) \<and>
   (\<forall>attrs children first_row more_rows.
       find_all [''tr''] (Tag ''table'' attrs children) = first_row # more_rows \<and>
       find_all [''th'', ''td''] first_row = [] \<longrightarrow>
       element_blocks (Tag ''table'' attrs children) = [])"
proof (intro conjI allI impI)
  fix block
  assume a: "JDict block \<in> set (convert_with_bs4 libs md_content) \<and>
       dict_get block ''type'' = Some (JStr ''table'')"
  then obtain element where el: "element \<in> set (parse_markdown libs md_content)"
    and b: "JDict block \<in> set (element_blocks element)"
    by (auto simp: convert_with_bs4_def split: if_splits)
  have bt: "block_type (JDict block) = Some ''table''" using a by (simp add: block_type_JDict)
  from element_blocks_table[OF b bt] have "JDict block \<in> set (table_blocks element)" by blast
  from table_blocks_shape[OF this] obtain first_row more_rows where
    rows: "find_all [''tr''] element = first_row # more_rows"
    and w: "0 < length (find_all [''th'', ''td''] first_row)"
    and blk: "JDict block = JDict [(''object'', JStr ''block''), (''type'', JStr ''table''),
                 (''table'',
                    JDict [(''table_width'', JNum (int (length (find_all [''th'', ''td''] first_row)))),
                           (''has_column_header'', JBool (find_first [''th''] first_row \<noteq> None)),
                           (''has_row_header'', JBool False),
                           (''children'',
                              JList (map (table_row (length (find_all [''th'', ''td''] first_row)))
                                       (first_row # more_rows)))])]"
    by blast
  let ?w = "length (find_all [''th'', ''td''] first_row)"
  have t: "dict_get block ''table'' =
             Some (JDict [(''table_width'', JNum (int ?w)),
                          (''has_column_header'', JBool (find_first [''th''] first_row \<noteq> None)),
                          (''has_row_header'', JBool False),
                          (''children'',
                             JList (map (\<lambda>row. JDict [(''type'', JStr ''table_row''),
                                       (''table_row'', JDict [(''cells'',
                                          JList (map JList
                                            (take ?w (source_cells row) @
                                             replicate (?w - length (source_cells row)) pad_cell)))])])
                                      (first_row # more_rows)))])"
    using blk by (simp add: table_row_eq)
  have l: "\<forall>row\<in>set (first_row # more_rows).
              length (take ?w (source_cells row) @
                      replicate (?w - length (source_cells row)) pad_cell) = ?w"
    by auto
  from el rows w t l
  show "\<exists>element first_row more_rows table_width.
           element \<in> set (parse_markdown libs md_content) \<and>
           find_all [''tr''] element = first_row # more_rows \<and>
           table_width = length (find_all [''th'', ''td''] first_row) \<and>
           0 < table_width \<and>
           dict_get block ''table'' =
             Some (JDict [(''table_width'', JNum (int table_width)),
                          (''has_column_header'', JBool (find_first [''th''] first_row \<noteq> None)),
                          (''has_row_header'', JBool False),
                          (''children'',
                             JList (map (\<lambda>row. JDict [(''type'', JStr ''table_row''),
                                       (''table_row'', JDict [(''cells'',
                                          JList (map JList
                                            (take table_width (source_cells row) @
                                             replicate (table_width - length (source_cells row)) pad_cell)))])])
                                      (first_row # more_rows)))]) \<and>
           (\<forall>row\<in>set (first_row # more_rows).
              length (take table_width (source_cells row) @
                      replicate (table_width - length (source_cells row)) pad_cell) = table_width)"
    by blast
next
  fix attrs children first_row more_rows
  assume "find_all [''tr''] (Tag ''table'' attrs children) = first_row # more_rows \<and>
       find_all [''th'', ''td''] first_row = []"
  then show "element_blocks (Tag ''table'' attrs children) = []"
    by (simp add: table_blocks_def Let_def)
qed

text \<open>
  The example table has rows of two, one and three cells: the second row is padded and the
  third is cut. A table with one empty row gives nothing.
\<close>

theorem table_rows_have_table_width_witness:
  "JDict example_table_block \<in> set (convert_with_bs4 example_library example_table_text) \<and>
   dict_get example_table_block ''type'' = Some (JStr ''table'') \<and>
   (\<exists>element first_row more_rows table_width.
           element \<in> set (parse_markdown example_library example_table_text) \<and>
           find_all [''tr''] element = first_row # more_rows \<and>
           table_width = length (find_all [''th'', ''td''] first_row) \<and>
           0 < table_width \<and>
           dict_get example_table_block ''table'' =
             Some (JDict [(''table_width'', JNum (int table_width)),
                          (''has_column_header'', JBool (find_first [''th''] first_row \<noteq> None)),
                          (''has_row_header'', JBool False),
                          (''children'',
                             JList (map (\<lambda>row. JDict [(''type'', JStr ''table_row''),
                                       (''table_row'', JDict [(''cells'',
                                          JList (map JList
                                            (take table_width (source_cells row) @
                                             replicate (table_width - length (source_cells row)) pad_cell)))])])
                                      (first_row # more_rows)))])) \<and>
   find_all [''tr''] (Tag ''table'' [] [Tag ''tr'' [] []]) = [Tag ''tr'' [] []] \<and>
   find_all [''th'', ''td''] (Tag ''tr'' [] []) = [] \<and>
   element_blocks (Tag ''table'' [] [Tag ''tr'' [] []]) = []"
proof -
  have m: "JDict example_table_block \<in> set (convert_with_bs4 example_library example_table_text)"
    by (simp add: example_library_table)
  have t: "dict_get example_table_block ''type'' = Some (JStr ''table'')"
    by (simp add: example_table_block_def)
  have f: "find_all [''tr''] (Tag ''table'' [] [Tag ''tr'' [] []]) = [Tag ''tr'' [] []]"
    "find_all [''th'', ''td''] (Tag ''tr'' [] []) = []"
    by (simp_all add: find_all_def)
  note w = table_rows_have_table_width[of example_library example_table_text]
  from w m t have a: "\<exists>element first_row more_rows table_width.
           element \<in> set (parse_markdown example_library example_table_text) \<and>
           find_all [''tr''] element = first_row # more_rows \<and>
           table_width = length (find_all [''th'', ''td''] first_row) \<and>
           0 < table_width \<and>
           dict_get example_table_block ''table'' =
             Some (JDict [(''table_width'', JNum (int table_width)),
                          (''has_column_header'', JBool (find_first [''th''] first_row \<noteq> None)),
                          (''has_row_header'', JBool False),
                          (''children'',
                             JList (map (\<lambda>row. JDict [(''type'', JStr ''table_row''),
                                       (''table_row'', JDict [(''cells'',
                                          JList (map JList
                                            (take table_width (source_cells row) @
                                             replicate (table_width - length (source_cells row)) pad_cell)))])])
                                      (first_row # more_rows)))])"
    by blast
  from w f have b: "element_blocks (Tag ''table'' [] [Tag ''tr'' [] []]) = []" by blast
  from m t a f b show ?thesis by (simp only: simp_thms)
qed

subsection \<open>Lines inside a code fence\<close>




subsection \<open>The resolution of a run\<close>




subsection \<open>Preprocessing\<close>

text \<open>
  C6. The callback that handles a bare URL is meant to skip a URL that directly follows the two
  characters \<^verbatim>\<open>](\<close>. It reads those two characters from the original text at the offset
  the match has in the current line of the masked text. In \<^verbatim>\<open>[a](b) [](https://x.com)\<close> the
  URL follows \<^verbatim>\<open>](\<close>, yet it is replaced by a placeholder and recorded.
\<close>

theorem bare_url_after_bracket_not_skipped:
  "preprocess_markdown_links ''[a](b) [](https://x.com)'' =
     (''[LINKPLACEHOLDER_0] [](URLLINKPLACEHOLDER_1)'',
      [\<lparr>placeholder = ''LINKPLACEHOLDER_0'', link_text = ''a'', link_url = ''b''\<rparr>,
       \<lparr>placeholder = ''URLLINKPLACEHOLDER_1'', link_text = ''https://x.com'',
        link_url = ''https://x.com''\<rparr>])"
  by code_simp

subsection \<open>Runs with empty content\<close>



subsection \<open>Blocks without a token\<close>

text \<open>
  C8. With an empty list of entries \<^verbatim>\<open>postprocess_notion_blocks\<close> returns its argument, and
  \<^verbatim>\<open>fix_markdown_links\<close> returns what the converter gave when preprocessing recorded no
  entry. For any list of entries and any list of blocks: when the call returns, it returns a
  list of the same length, and every block in which no token occurs stands unchanged at its
  place, whatever the other blocks hold. The call returns for every sequence of blocks of
  the shapes that the built-in converter builds. (On other values the search of a content
  can raise \<^verbatim>\<open>TypeError\<close>; then nothing is returned.)
\<close>

theorem postprocess_keeps_blocks_without_token:
  "postprocess_notion_blocks blocks [] = Inr blocks \<and>
   (preprocess_markdown_links markdown_content = (processed_content, []) \<longrightarrow>
      fix_markdown_links markdown_content converter_func = Inr (converter_func processed_content)) \<and>
   (\<forall>result.
      postprocess_notion_blocks (JList block_list) extracted_links = Inr result \<longrightarrow>
      (\<exists>ys. result = JList ys \<and> length ys = length block_list \<and>
         (\<forall>i<length block_list.
            \<not> mentions (link_lookup extracted_links) (block_list ! i) \<longrightarrow> ys ! i = block_list ! i))) \<and>
   (\<exists>ys. postprocess_notion_blocks (JList (map block_json typed_blocks)) extracted_links
            = Inr (JList ys) \<and>
         length ys = length typed_blocks \<and>
         (\<forall>i<length typed_blocks.
            \<not> mentions (link_lookup extracted_links) (block_json (typed_blocks ! i)) \<longrightarrow>
            ys ! i = block_json (typed_blocks ! i)))"
proof (intro conjI impI allI)
  show "postprocess_notion_blocks blocks [] = Inr blocks"
    by (simp add: postprocess_notion_blocks_def)
next
  assume "preprocess_markdown_links markdown_content = (processed_content, [])"
  then show "fix_markdown_links markdown_content converter_func = Inr (converter_func processed_content)"
    by (simp add: fix_markdown_links_def)
next
  fix result
  assume "postprocess_notion_blocks (JList block_list) extracted_links = Inr result"
  then show "\<exists>ys. result = JList ys \<and> length ys = length block_list \<and>
         (\<forall>i<length block_list.
            \<not> mentions (link_lookup extracted_links) (block_list ! i) \<longrightarrow> ys ! i = block_list ! i)"
    by (rule postprocess_keeps_blocks)
next
  let ?r = "map block_json (map (resolve_block (link_lookup extracted_links)) typed_blocks)"
  have p: "postprocess_notion_blocks (JList (map block_json typed_blocks)) extracted_links
      = Inr (JList ?r)"
    by (rule postprocess_typed_blocks)
  from postprocess_keeps_blocks[OF p] obtain ys where
    ys: "JList ?r = JList ys" "length ys = length (map block_json typed_blocks)"
      "\<forall>i<length (map block_json typed_blocks).
          \<not> mentions (link_lookup extracted_links) (map block_json typed_blocks ! i) \<longrightarrow>
          ys ! i = map block_json typed_blocks ! i" by blast
  have "postprocess_notion_blocks (JList (map block_json typed_blocks)) extracted_links
            = Inr (JList ys) \<and>
         length ys = length typed_blocks \<and>
         (\<forall>i<length typed_blocks.
            \<not> mentions (link_lookup extracted_links) (block_json (typed_blocks ! i)) \<longrightarrow>
            ys ! i = block_json (typed_blocks ! i))"
    using p ys by simp
  then show "\<exists>ys. postprocess_notion_blocks (JList (map block_json typed_blocks)) extracted_links
            = Inr (JList ys) \<and>
         length ys = length typed_blocks \<and>
         (\<forall>i<length typed_blocks.
            \<not> mentions (link_lookup extracted_links) (block_json (typed_blocks ! i)) \<longrightarrow>
            ys ! i = block_json (typed_blocks ! i))"
    by (rule exI)
qed

text \<open>
  Three blocks, the second with a token: the first and the third are returned unchanged,
  the second is resolved.
\<close>

theorem postprocess_keeps_blocks_without_token_witness:
  "postprocess_notion_blocks (JList [plain_paragraph, token_paragraph, plain_table]) nested_links
     = Inr (JList [plain_paragraph,
                   block_json (RichText Paragraph [Run ''LINKPLACEHOLDER_1'' (Some ''u0'') None]),
                   plain_table]) \<and>
   \<not> mentions (link_lookup nested_links) plain_paragraph \<and>
   mentions (link_lookup nested_links) token_paragraph \<and>
   \<not> mentions (link_lookup nested_links) plain_table \<and>
   preprocess_markdown_links ''no link here'' = (''no link here'', []) \<and>
   fix_markdown_links ''no link here'' (\<lambda>s. JList [block_json (RichText Paragraph [Run s None None])])
     = Inr (JList [plain_paragraph])"
proof -
  let ?bs = "[RichText Paragraph [Run ''no link here'' None None],
             RichText Paragraph [Run ''[LINKPLACEHOLDER_0]'' None None],
             Table 2 True [[[Run ''A'' None None], [Run ''B'' None None]],
                           [[Run ''x'' None None], [Run [] None None]]]]"
  have m: "\<not> mentions (link_lookup nested_links) plain_paragraph"
    "mentions (link_lookup nested_links) token_paragraph"
    "\<not> mentions (link_lookup nested_links) plain_table"
    by code_simp+
  have pp: "preprocess_markdown_links ''no link here'' = (''no link here'', [])"
    by code_simp
  have r: "map (resolve_block (link_lookup nested_links)) ?bs =
      [RichText Paragraph [Run ''no link here'' None None],
       RichText Paragraph [Run ''LINKPLACEHOLDER_1'' (Some ''u0'') None],
       Table 2 True [[[Run ''A'' None None], [Run ''B'' None None]],
                     [[Run ''x'' None None], [Run [] None None]]]]"
    by code_simp
  note t = postprocess_keeps_blocks_without_token[of _ "''no link here''" "''no link here''"
      "\<lambda>s. JList [block_json (RichText Paragraph [Run s None None])]"
      "[plain_paragraph, token_paragraph, plain_table]" nested_links ?bs]
  from t pp have f: "fix_markdown_links ''no link here''
        (\<lambda>s. JList [block_json (RichText Paragraph [Run s None None])])
     = Inr (JList [plain_paragraph])"
    unfolding plain_paragraph_def by blast
  have e: "postprocess_notion_blocks (JList [plain_paragraph, token_paragraph, plain_table]) nested_links
     = Inr (JList [plain_paragraph,
                   block_json (RichText Paragraph [Run ''LINKPLACEHOLDER_1'' (Some ''u0'') None]),
                   plain_table])"
    using postprocess_typed_blocks[of ?bs nested_links]
    unfolding r plain_paragraph_def token_paragraph_def plain_table_def
    by (simp del: block_json.simps)
  from t e obtain ys where
    ys: "JList [plain_paragraph,
                block_json (RichText Paragraph [Run ''LINKPLACEHOLDER_1'' (Some ''u0'') None]),
                plain_table] = JList ys"
        "\<forall>i<length [plain_paragraph, token_paragraph, plain_table].
            \<not> mentions (link_lookup nested_links) ([plain_paragraph, token_paragraph, plain_table] ! i) \<longrightarrow>
            ys ! i = [plain_paragraph, token_paragraph, plain_table] ! i"
    by blast
  from e m pp f show ?thesis by (simp only: simp_thms)
qed

subsection \<open>The order of resolution\<close>

text \<open>
  C10, as stated, fails in two ways. With the twelve entries of \<^verbatim>\<open>example_links\<close>, a run
  that holds the tokens of the entries 10 and 11 takes the text and the target of entry 1,
  not of entry 10. And the token of entry 1, \<^verbatim>\<open>LINKPLACEHOLDER_1\<close>, is not a prefix of the
  token of entry 10, \<^verbatim>\<open>URLLINKPLACEHOLDER_10\<close>; it occurs inside it.
\<close>

theorem run_with_tokens_10_and_11_gets_placeholder_1:
  "preprocess_markdown_links example_markdown = (example_masked, example_links) \<and>
   sublist (placeholder (example_links ! 10)) ''URLLINKPLACEHOLDER_10 URLLINKPLACEHOLDER_11'' \<and>
   sublist (placeholder (example_links ! 11)) ''URLLINKPLACEHOLDER_10 URLLINKPLACEHOLDER_11'' \<and>
   link_text (example_links ! 10) = ''http://c10'' \<and>
   link_text (example_links ! 1) = ''b'' \<and>
   postprocess_notion_blocks
      (JList [block_json (RichText Paragraph
                [Run ''URLLINKPLACEHOLDER_10 URLLINKPLACEHOLDER_11'' None None])])
      example_links
     = Inr (JList [block_json (RichText Paragraph [Run ''b'' (Some ''v'') None])]) \<and>
   \<not> prefix (placeholder (example_links ! 1)) (placeholder (example_links ! 10))"
proof -
  have a: "sublist (placeholder (example_links ! 10)) ''URLLINKPLACEHOLDER_10 URLLINKPLACEHOLDER_11''"
    "sublist (placeholder (example_links ! 11)) ''URLLINKPLACEHOLDER_10 URLLINKPLACEHOLDER_11''"
    "\<not> prefix (placeholder (example_links ! 1)) (placeholder (example_links ! 10))"
    by code_simp+
  have t: "link_text (example_links ! 10) = ''http://c10''" "link_text (example_links ! 1) = ''b''"
    by (simp_all add: example_links_def)
  have b: "map (resolve_block (link_lookup example_links))
             [RichText Paragraph [Run ''URLLINKPLACEHOLDER_10 URLLINKPLACEHOLDER_11'' None None]]
           = [RichText Paragraph [Run ''b'' (Some ''v'') None]]"
    by code_simp
  have b': "postprocess_notion_blocks
      (JList [block_json (RichText Paragraph
                [Run ''URLLINKPLACEHOLDER_10 URLLINKPLACEHOLDER_11'' None None])])
      example_links
     = Inr (JList [block_json (RichText Paragraph [Run ''b'' (Some ''v'') None])])"
    using postprocess_typed_blocks[of
        "[RichText Paragraph [Run ''URLLINKPLACEHOLDER_10 URLLINKPLACEHOLDER_11'' None None]]"
        example_links]
    unfolding b by (simp del: block_json.simps)
  from a t b' example_preprocessed show ?thesis by (simp only: simp_thms)
qed

text \<open>
  C10, amended. Let the entries be those that preprocessing records for a text. Every
  sequence of blocks of the shapes of the built-in converter is returned with each run
  visited as in C5. When the token of entry \<^verbatim>\<open>i\<close> occurs in the content of a run, a visit gives
  the run the display text and the target of the entry with the lowest index whose token
  occurs in the content; that index is at most \<^verbatim>\<open>i\<close>, so an entry with a higher index whose
  token occurs as well is never applied. When there are more than ten entries, the token
  of entry 1 occurs inside the token of entry 10; it is a prefix of it unless entry 1 is
  a markdown link and entry 10 a bare URL; and a visit of a run whose content is the token
  of entry 10 gives it the display text and the target of entry 1.
\<close>

theorem lowest_index_placeholder_wins:
  "preprocess_markdown_links markdown_content = (processed_content, extracted_links) \<longrightarrow>
     postprocess_notion_blocks (JList (map block_json blocks)) extracted_links =
       Inr (JList (map block_json (map (resolve_block (link_lookup extracted_links)) blocks))) \<and>
     (\<forall>i content href annotation.
        i < length extracted_links \<and> sublist (placeholder (extracted_links ! i)) content \<longrightarrow>
        (\<exists>k\<le>i. sublist (placeholder (extracted_links ! k)) content \<and>
               (\<forall>m<k. \<not> sublist (placeholder (extracted_links ! m)) content) \<and>
               resolve_run (link_lookup extracted_links) (Run content href annotation) =
                 Run (link_text (extracted_links ! k)) (Some (link_url (extracted_links ! k)))
                   annotation)) \<and>
     (10 < length extracted_links \<longrightarrow>
        sublist (placeholder (extracted_links ! 1)) (placeholder (extracted_links ! 10)) \<and>
        (prefix (placeholder (extracted_links ! 1)) (placeholder (extracted_links ! 10)) \<longleftrightarrow>
           \<not> (placeholder (extracted_links ! 1) = ''LINKPLACEHOLDER_1'' \<and>
              placeholder (extracted_links ! 10) = ''URLLINKPLACEHOLDER_10'')) \<and>
        (\<forall>href annotation.
           resolve_run (link_lookup extracted_links)
             (Run (placeholder (extracted_links ! 10)) href annotation) =
           Run (link_text (extracted_links ! 1)) (Some (link_url (extracted_links ! 1))) annotation))"
proof (intro impI conjI allI)
  assume p: "preprocess_markdown_links markdown_content = (processed_content, extracted_links)"
  have d: "distinct (map placeholder extracted_links)"
    using p by (rule preprocess_placeholders_distinct)
  show "postprocess_notion_blocks (JList (map block_json blocks)) extracted_links =
       Inr (JList (map block_json (map (resolve_block (link_lookup extracted_links)) blocks)))"
    by (rule postprocess_typed_blocks)
  {
    fix i content href annotation
    assume a: "i < length extracted_links \<and> sublist (placeholder (extracted_links ! i)) content"
    from least_token_index[of extracted_links i content] a obtain k where
      k: "k \<le> i" "sublist (placeholder (extracted_links ! k)) content"
         "\<forall>m<k. \<not> sublist (placeholder (extracted_links ! m)) content" by blast
    have "k < length extracted_links" using k(1) a by simp
    from resolve_run_index[OF d this k(2,3)] k
    show "\<exists>k\<le>i. sublist (placeholder (extracted_links ! k)) content \<and>
               (\<forall>m<k. \<not> sublist (placeholder (extracted_links ! m)) content) \<and>
               resolve_run (link_lookup extracted_links) (Run content href annotation) =
                 Run (link_text (extracted_links ! k)) (Some (link_url (extracted_links ! k)))
                   annotation"
      by blast
  }
  {
    assume n: "10 < length extracted_links"
    note cases = tokens_0_1_10[OF p n]
    show s: "sublist (placeholder (extracted_links ! 1)) (placeholder (extracted_links ! 10))"
      using cases token_1_prefix_token_10 by (elim disjE conjE) (simp_all only: simp_thms)
    show "prefix (placeholder (extracted_links ! 1)) (placeholder (extracted_links ! 10)) \<longleftrightarrow>
           \<not> (placeholder (extracted_links ! 1) = ''LINKPLACEHOLDER_1'' \<and>
              placeholder (extracted_links ! 10) = ''URLLINKPLACEHOLDER_10'')"
      using cases token_1_prefix_token_10 by (elim disjE conjE) simp_all
    have z: "\<not> sublist (placeholder (extracted_links ! 0)) (placeholder (extracted_links ! 10))"
      using cases token_0_not_in_token_10 by (elim disjE conjE) (simp_all only: simp_thms)
    fix href annotation
    have "\<forall>k<1. \<not> sublist (placeholder (extracted_links ! k)) (placeholder (extracted_links ! 10))"
      using z by simp
    moreover have "1 < length extracted_links" using n by simp
    ultimately show "resolve_run (link_lookup extracted_links)
             (Run (placeholder (extracted_links ! 10)) href annotation) =
           Run (link_text (extracted_links ! 1)) (Some (link_url (extracted_links ! 1))) annotation"
      using resolve_run_index[OF d _ s] by blast
  }
qed

text \<open>An instance with the twelve entries of the example.\<close>

theorem lowest_index_placeholder_wins_witness:
  "preprocess_markdown_links example_markdown = (example_masked, example_links) \<and>
   postprocess_notion_blocks
     (JList [block_json (RichText Paragraph
                [Run ''URLLINKPLACEHOLDER_3 [LINKPLACEHOLDER_0]'' None None,
                 Run ''URLLINKPLACEHOLDER_10'' None None])])
     example_links
   = Inr (JList [block_json (RichText Paragraph
                    [Run ''a'' (Some ''u'') None, Run ''b'' (Some ''v'') None])]) \<and>
   sublist (placeholder (example_links ! 1)) (placeholder (example_links ! 10)) \<and>
   resolve_run (link_lookup example_links) (Run (placeholder (example_links ! 10)) None None) =
     Run (link_text (example_links ! 1)) (Some (link_url (example_links ! 1))) None"
proof -
  have r: "map (resolve_block (link_lookup example_links))
      [RichText Paragraph
         [Run ''URLLINKPLACEHOLDER_3 [LINKPLACEHOLDER_0]'' None None,
          Run ''URLLINKPLACEHOLDER_10'' None None]]
    = [RichText Paragraph [Run ''a'' (Some ''u'') None, Run ''b'' (Some ''v'') None]]"
    by code_simp
  have n: "10 < length example_links" by (simp add: example_links_def)
  note t = lowest_index_placeholder_wins[of example_markdown example_masked example_links
      "[RichText Paragraph
         [Run ''URLLINKPLACEHOLDER_3 [LINKPLACEHOLDER_0]'' None None,
          Run ''URLLINKPLACEHOLDER_10'' None None]]", THEN mp, OF example_preprocessed]
  note t1 = t[THEN conjunct1]
  note t3 = t[THEN conjunct2, THEN conjunct2, THEN mp, OF n]
  have "postprocess_notion_blocks
     (JList [block_json (RichText Paragraph
                [Run ''URLLINKPLACEHOLDER_3 [LINKPLACEHOLDER_0]'' None None,
                 Run ''URLLINKPLACEHOLDER_10'' None None])])
     example_links
   = Inr (JList [block_json (RichText Paragraph
                    [Run ''a'' (Some ''u'') None, Run ''b'' (Some ''v'') None])])"
    using t1 unfolding r by (simp del: block_json.simps)
  moreover have "sublist (placeholder (example_links ! 1)) (placeholder (example_links ! 10))"
    using t3 by blast
  moreover have "resolve_run (link_lookup example_links)
       (Run (placeholder (example_links ! 10)) None None) =
     Run (link_text (example_links ! 1)) (Some (link_url (example_links ! 1))) None"
    using t3 by blast
  ultimately show ?thesis using example_preprocessed by (simp only: simp_thms)
qed

end
